theory Spec2Isabelle
  imports Main "HOL-Library.Word"
begin

section \<open>Data model of the mock Twilio server\<close>

text \<open>
  The development follows \<^verbatim>\<open>devtools/mocktwilio/server.go\<close>. The two routing tables of the
  server hold pointers: \<^verbatim>\<open>numbersDB\<close> is a \<^verbatim>\<open>map[string]*Number\<close> and \<^verbatim>\<open>msgSvcDB\<close> a
  \<^verbatim>\<open>map[string][]*Number\<close>, and \<^verbatim>\<open>AddMsgService\<close> writes through these pointers. The model
  therefore keeps an explicit store of \<^verbatim>\<open>Number\<close> objects: a pointer is an index into the list
  \<open>heap\<close>, an allocation appends to it, and a write through a pointer is a list update.
\<close>

record Config =
  AccountSID :: string
  AuthToken :: string
  EnableAuth :: bool

record MsgService =
  ID :: string
  Numbers :: "string list"
  SMSWebhookURL :: string

record Number =
  Number :: string
  VoiceWebhookURL :: string
  SMSWebhookURL :: string

type_synonym addr = nat

record Server =
  cfg :: Config
  heap :: "Number list"
  numbersDB :: "string \<rightharpoonup> addr"
  msgSvcDB :: "string \<rightharpoonup> addr list"
  srv_id :: "64 word"

text \<open>
  The two library calls of the registration functions are parameters of the model:
  \<open>parsePhone s\<close> stands for the error result of \<^verbatim>\<open>libphonenumber.Parse(s, "")\<close> (\<open>None\<close> when
  the number parses), and \<open>urlParse s\<close> for \<^verbatim>\<open>url.Parse(s)\<close>, giving either its error or the
  \<^verbatim>\<open>Scheme\<close> field of the parsed URL.
\<close>

record Env =
  parsePhone :: "string \<Rightarrow> string option"
  urlParse :: "string \<Rightarrow> string + string"

text \<open>One constructor for each place where the registration functions return an error.\<close>

datatype error =
    InvalidPhoneNumber string string
  | URLParseError string
  | MissingScheme string
  | NumberExists string
  | InvalidMsgServiceSID string
  | MsgServiceExists string

text \<open>
  The error kinds of the specification: a \<open>ValidationError\<close> is any rejection by the
  phone-number parser, by \<^verbatim>\<open>validateURL\<close> or by the \<^verbatim>\<open>MG\<close> prefix test; a \<open>DuplicateError\<close>
  is one of the two "already exists" errors.
\<close>

fun isValidationError :: "error \<Rightarrow> bool" where
  "isValidationError (InvalidPhoneNumber _ _) = True"
| "isValidationError (URLParseError _) = True"
| "isValidationError (MissingScheme _) = True"
| "isValidationError (InvalidMsgServiceSID _) = True"
| "isValidationError _ = False"

fun isDuplicateError :: "error \<Rightarrow> bool" where
  "isDuplicateError (NumberExists _) = True"
| "isDuplicateError (MsgServiceExists _) = True"
| "isDuplicateError _ = False"

section \<open>The routing store\<close>

definition validateURL :: "Env \<Rightarrow> string \<Rightarrow> error option" where
  "validateURL env s =
     (case urlParse env s of
        Inl e \<Rightarrow> Some (URLParseError e)
      | Inr scheme \<Rightarrow> if scheme = [] then Some (MissingScheme s) else None)"

text \<open>\<^verbatim>\<open>NewServer\<close> panics on an empty account SID (\<open>None\<close>); otherwise both tables start empty.\<close>

definition NewServer :: "Config \<Rightarrow> Server option" where
  "NewServer c =
     (if AccountSID c = [] then None
      else Some \<lparr>cfg = c, heap = [], numbersDB = Map.empty, msgSvcDB = Map.empty, srv_id = 0\<rparr>)"

definition number :: "Server \<Rightarrow> string \<Rightarrow> addr option" where
  "number srv s = numbersDB srv s"

text \<open>Indexing a Go map of slices at a missing key gives the nil slice.\<close>

definition numberSvc :: "Server \<Rightarrow> string \<Rightarrow> addr list" where
  "numberSvc srv i = (case msgSvcDB srv i of None \<Rightarrow> [] | Some nums \<Rightarrow> nums)"

text \<open>
  Reading the record behind a pointer. \<open>lookupNumber\<close> is the lookup of the specification:
  the pointer returned by \<open>number\<close>, dereferenced; \<open>lookupServiceNumbers\<close> likewise for
  \<open>numberSvc\<close>.
\<close>

definition deref :: "Server \<Rightarrow> addr \<Rightarrow> Number option" where
  "deref srv p = (if p < length (heap srv) then Some (heap srv ! p) else None)"

definition lookupNumber :: "Server \<Rightarrow> string \<Rightarrow> Number option" where
  "lookupNumber srv s = (case number srv s of None \<Rightarrow> None | Some p \<Rightarrow> deref srv p)"

definition lookupServiceNumbers :: "Server \<Rightarrow> string \<Rightarrow> Number option list" where
  "lookupServiceNumbers srv i = map (deref srv) (numberSvc srv i)"

definition AddNumber :: "Env \<Rightarrow> Number \<Rightarrow> Server \<Rightarrow> error option \<times> Server" where
  "AddNumber env n srv =
     (case parsePhone env (Number n) of
        Some e \<Rightarrow> (Some (InvalidPhoneNumber (Number n) e), srv)
      | None \<Rightarrow>
     (case (if SMSWebhookURL n \<noteq> [] then validateURL env (SMSWebhookURL n) else None) of
        Some e \<Rightarrow> (Some e, srv)
      | None \<Rightarrow>
     (case (if VoiceWebhookURL n \<noteq> [] then validateURL env (VoiceWebhookURL n) else None) of
        Some e \<Rightarrow> (Some e, srv)
      | None \<Rightarrow>
     (case numbersDB srv (Number n) of
        Some _ \<Rightarrow> (Some (NumberExists (Number n)), srv)
      | None \<Rightarrow>
          (None, srv\<lparr>heap := heap srv @ [n],
                     numbersDB := (numbersDB srv)(Number n \<mapsto> length (heap srv))\<rparr>)))))"

text \<open>The first loop of \<^verbatim>\<open>AddMsgService\<close>: the error of the first member that does not parse.\<close>

fun checkNumbers :: "Env \<Rightarrow> string list \<Rightarrow> error option" where
  "checkNumbers env [] = None"
| "checkNumbers env (nStr # rest) =
     (case parsePhone env nStr of
        Some e \<Rightarrow> Some (InvalidPhoneNumber nStr e)
      | None \<Rightarrow> checkNumbers env rest)"

text \<open>
  The body of the second loop, in the order of the source: find the member's record or
  allocate a bare one (\<open>findOrCreate\<close>), append the pointer to the service's list, and, when
  the service has its own SMS webhook, write it into the record through the pointer.
\<close>

definition bareNumber :: "string \<Rightarrow> Number" where
  "bareNumber nStr = \<lparr>Number = nStr, VoiceWebhookURL = [], SMSWebhookURL = []\<rparr>"

definition findOrCreate :: "string \<Rightarrow> Server \<Rightarrow> addr \<times> Server" where
  "findOrCreate nStr srv =
     (case numbersDB srv nStr of
        Some p \<Rightarrow> (p, srv)
      | None \<Rightarrow>
          (length (heap srv),
           srv\<lparr>heap := heap srv @ [bareNumber nStr],
               numbersDB := (numbersDB srv)(nStr \<mapsto> length (heap srv))\<rparr>))"

definition appendMember :: "string \<Rightarrow> addr \<Rightarrow> Server \<Rightarrow> Server" where
  "appendMember i p srv = srv\<lparr>msgSvcDB := (msgSvcDB srv)(i \<mapsto> numberSvc srv i @ [p])\<rparr>"

definition setSMSWebhookURL :: "addr \<Rightarrow> string \<Rightarrow> Server \<Rightarrow> Server" where
  "setSMSWebhookURL p u srv = srv\<lparr>heap := (heap srv)[p := (heap srv ! p)\<lparr>SMSWebhookURL := u\<rparr>]\<rparr>"

definition addMember :: "MsgService \<Rightarrow> Server \<Rightarrow> string \<Rightarrow> Server" where
  "addMember ms srv nStr =
     (case findOrCreate nStr srv of
        (p, srv1) \<Rightarrow>
          let srv2 = appendMember (ID ms) p srv1
          in if MsgService.SMSWebhookURL ms = [] then srv2
             else setSMSWebhookURL p (MsgService.SMSWebhookURL ms) srv2)"

fun addMembers :: "MsgService \<Rightarrow> string list \<Rightarrow> Server \<Rightarrow> Server" where
  "addMembers ms [] srv = srv"
| "addMembers ms (nStr # rest) srv = addMembers ms rest (addMember ms srv nStr)"

definition hasPrefixMG :: "string \<Rightarrow> bool" where
  "hasPrefixMG s = (take 2 s = ''MG'')"

definition AddMsgService :: "Env \<Rightarrow> MsgService \<Rightarrow> Server \<Rightarrow> error option \<times> Server" where
  "AddMsgService env ms srv =
     (if \<not> hasPrefixMG (ID ms) then (Some (InvalidMsgServiceSID (ID ms)), srv)
      else
     (case (if MsgService.SMSWebhookURL ms \<noteq> [] then validateURL env (MsgService.SMSWebhookURL ms)
            else None) of
        Some e \<Rightarrow> (Some e, srv)
      | None \<Rightarrow>
     (case checkNumbers env (Numbers ms) of
        Some e \<Rightarrow> (Some e, srv)
      | None \<Rightarrow>
     (case msgSvcDB srv (ID ms) of
        Some _ \<Rightarrow> (Some (MsgServiceExists (ID ms)), srv)
      | None \<Rightarrow> (None, addMembers ms (Numbers ms) srv)))))"

section \<open>Store invariant and sequences of registrations\<close>

text \<open>
  The invariant of the number table: every pointer in it is allocated, and the record
  behind the pointer stored under a key carries that key as its number string. It holds of
  a new server and every registration keeps it; with it, two keys never share a record.
\<close>

definition wf :: "Server \<Rightarrow> bool" where
  "wf srv \<longleftrightarrow>
     (\<forall>k p. numbersDB srv k = Some p \<longrightarrow> p < length (heap srv) \<and> Number (heap srv ! p) = k)"

text \<open>
  What one pass of the loop body of \<^verbatim>\<open>AddMsgService\<close> leaves in a member's record: the
  record the member had (\<open>recordOrBare\<close>: a bare one when it had none), with the service's
  SMS webhook written over its own when the service has one.
\<close>

definition applyOverride :: "MsgService \<Rightarrow> Number \<Rightarrow> Number" where
  "applyOverride ms r =
     (if MsgService.SMSWebhookURL ms = [] then r else r\<lparr>SMSWebhookURL := MsgService.SMSWebhookURL ms\<rparr>)"

definition recordOrBare :: "Server \<Rightarrow> string \<Rightarrow> Number" where
  "recordOrBare srv k = (case lookupNumber srv k of Some r \<Rightarrow> r | None \<Rightarrow> bareNumber k)"

text \<open>
  The registration calls a client can make, and a run of them on a server. A call
  \<open>targets\<close> a number string when it registers that string or lists it as a member.
\<close>

datatype op = OpAddNumber Number | OpAddMsgService MsgService

fun applyOp :: "Env \<Rightarrow> Server \<Rightarrow> op \<Rightarrow> Server" where
  "applyOp env srv (OpAddNumber n) = snd (AddNumber env n srv)"
| "applyOp env srv (OpAddMsgService ms) = snd (AddMsgService env ms srv)"

fun run :: "Env \<Rightarrow> op list \<Rightarrow> Server \<Rightarrow> Server" where
  "run env [] srv = srv"
| "run env (x # xs) srv = run env xs (applyOp env srv x)"

fun targets :: "op \<Rightarrow> string \<Rightarrow> bool" where
  "targets (OpAddNumber n) k = (Number n = k)"
| "targets (OpAddMsgService ms) k = (k \<in> set (Numbers ms))"


text \<open>The checks that \<^verbatim>\<open>AddNumber\<close> and \<^verbatim>\<open>AddMsgService\<close> make before they touch a table.\<close>

definition validNumber :: "Env \<Rightarrow> Number \<Rightarrow> bool" where
  "validNumber env n \<longleftrightarrow>
     parsePhone env (Number n) = None \<and>
     (SMSWebhookURL n = [] \<or> validateURL env (SMSWebhookURL n) = None) \<and>
     (VoiceWebhookURL n = [] \<or> validateURL env (VoiceWebhookURL n) = None)"

definition validMsgService :: "Env \<Rightarrow> MsgService \<Rightarrow> bool" where
  "validMsgService env ms \<longleftrightarrow>
     hasPrefixMG (ID ms) \<and>
     (MsgService.SMSWebhookURL ms = [] \<or> validateURL env (MsgService.SMSWebhookURL ms) = None) \<and>
     list_all (\<lambda>nStr. parsePhone env nStr = None) (Numbers ms)"

section \<open>The ID issuer\<close>

text \<open>
  \<^verbatim>\<open>nextID\<close> is \<^verbatim>\<open>fmt.Sprintf("%s%032d", prefix, atomic.AddUint64(&srv.id, 1))\<close>: the
  counter is a \<^verbatim>\<open>uint64\<close>, so the addition wraps at \<open>2 ^ 64\<close>; \<^verbatim>\<open>AddUint64\<close> returns the
  new value; \<^verbatim>\<open>%032d\<close> writes it in decimal, padded with zeros on the left to 32
  characters. \<open>issue\<close> makes one call for each prefix of a list, in order.
\<close>

definition digitChar :: "nat \<Rightarrow> char" where
  "digitChar d = ''0123456789'' ! d"

fun decimal :: "nat \<Rightarrow> string" where
  "decimal n = (if n < 10 then [digitChar n] else decimal (n div 10) @ [digitChar (n mod 10)])"

definition zeroPad :: "nat \<Rightarrow> string \<Rightarrow> string" where
  "zeroPad w s = replicate (w - length s) (CHR ''0'') @ s"

definition sprintfID :: "string \<Rightarrow> nat \<Rightarrow> string" where
  "sprintfID prefix v = prefix @ zeroPad 32 (decimal v)"

definition nextID :: "string \<Rightarrow> Server \<Rightarrow> string \<times> Server" where
  "nextID prefix srv =
     (let v = srv_id srv + 1 in (sprintfID prefix (unat v), srv\<lparr>srv_id := v\<rparr>))"

fun issue :: "string list \<Rightarrow> Server \<Rightarrow> string list \<times> Server" where
  "issue [] srv = ([], srv)"
| "issue (prefix # rest) srv =
     (case nextID prefix srv of
        (i, srv1) \<Rightarrow> (case issue rest srv1 of (is, srv2) \<Rightarrow> (i # is, srv2)))"

text \<open>Reading the counter back from an ID: the value of its last 32 characters.\<close>

definition digitVal :: "char \<Rightarrow> nat" where
  "digitVal c = length (takeWhile (\<lambda>x. x \<noteq> c) ''0123456789'')"

definition readDecimal :: "string \<Rightarrow> nat" where
  "readDecimal s = foldl (\<lambda>a c. 10 * a + digitVal c) 0 s"

definition numericPart :: "string \<Rightarrow> nat" where
  "numericPart i = readDecimal (drop (length i - 32) i)"

section \<open>The coordinator: loop, shutdown and drain\<close>

text \<open>
  \<^verbatim>\<open>Close\<close>, \<^verbatim>\<open>loop\<close> and \<^verbatim>\<open>WaitInFlight\<close> run in different goroutines and meet on channels,
  on \<^verbatim>\<open>srv.once\<close> and on the loop's wait group. They are modelled as a transition system:
  each goroutine has a program counter naming the statement it is about to execute, an
  event is one goroutine executing that statement, and an event whose statement would block
  (a receive from an open channel, \<^verbatim>\<open>wg.Wait\<close> with a positive counter, \<^verbatim>\<open>once.Do\<close> while
  another caller is inside it) is not enabled. Closing a closed channel panics.
\<close>

datatype once_pc = OnceFresh | OnceRunning | OnceDone

text \<open>A goroutine calling \<^verbatim>\<open>Close\<close>: before the call, at \<^verbatim>\<open>once.Do\<close>, inside the function passed
  to it (at \<^verbatim>\<open>close(srv.shutdown)\<close>), after that function (\<^verbatim>\<open>Do\<close> about to mark itself done
  and return), at \<^verbatim>\<open><-srv.shutdownDone\<close>, returned.\<close>

datatype close_pc = CNotCalled | CAtDo | CInBody | CBodyDone | CAtRecv | CReturned

text \<open>The loop goroutine: at the \<^verbatim>\<open>select\<close>; having received an outbound message, at
  \<^verbatim>\<open>wg.Add(1)\<close> and the \<^verbatim>\<open>go\<close> statement for its lifecycle; then after \<^verbatim>\<open>return\<close> at each
  deferred call, last deferred first: \<^verbatim>\<open>cancel()\<close>, \<^verbatim>\<open>wg.Wait()\<close>, \<^verbatim>\<open>close(srv.msgCh)\<close>,
  \<^verbatim>\<open>close(srv.shutdownDone)\<close>.\<close>

datatype loop_pc = LSelect | LWgAdd | LCancel | LWgWait | LCloseMsgCh | LCloseDone | LExited

text \<open>A goroutine calling \<^verbatim>\<open>WaitInFlight\<close>: before the call, at the first \<^verbatim>\<open>select\<close> (sending
  its channel), at the second (receiving from it), returned \<^verbatim>\<open>nil\<close>, returned \<^verbatim>\<open>ctx.Err()\<close>.\<close>

datatype wait_pc = WNotCalled | WAtSend | WAtRecv | WReturnedNil | WReturnedCtxErr

text \<open>The goroutine the loop starts for a drain request: not started, at \<^verbatim>\<open>wg.Wait()\<close>, at
  \<^verbatim>\<open>close(ch)\<close>, finished.\<close>

datatype watch_pc = XNotStarted | XAtWgWait | XAtClose | XFinished

text \<open>
  The shared state. Channels that are only closed are a flag (closed or not). Outbound
  messages are numbered in the order the loop receives them from \<^verbatim>\<open>srv.outboundMsgCh\<close>
  (\<open>received\<close> of them so far; the channel is unbuffered, so a submission completes when
  the loop receives it). The wait group counter is the number of lifecycle goroutines started (\<open>spawned\<close>)
  minus those that have called \<^verbatim>\<open>wg.Done\<close> (\<open>finished\<close>). Each \<^verbatim>\<open>WaitInFlight\<close> call
  \<open>i\<close> has its own channel \<open>ch i\<close>. Four fields only record history: \<open>closeCount\<close>
  counts the executions of \<^verbatim>\<open>close(srv.shutdown)\<close>, \<open>panicked\<close> is set by a close of a closed
  channel, \<open>seenAtCall i\<close> is the number of messages submitted before call
  \<open>i\<close> of \<^verbatim>\<open>WaitInFlight\<close> began, and \<open>drainedAt i\<close> the number started when the
  \<^verbatim>\<open>wg.Wait()\<close> of its watcher returned.
\<close>

record coord =
  once :: once_pc
  shutdown :: bool
  shutdownDone :: bool
  msgCh :: bool
  loopPc :: loop_pc
  received :: nat
  spawned :: nat
  finished :: "nat set"
  closer :: "nat \<Rightarrow> close_pc"
  waiter :: "nat \<Rightarrow> wait_pc"
  watcher :: "nat \<Rightarrow> watch_pc"
  ch :: "nat \<Rightarrow> bool"
  closeCount :: nat
  panicked :: bool
  seenAtCall :: "nat \<Rightarrow> nat"
  drainedAt :: "nat \<Rightarrow> nat"

definition coordInit :: coord where
  "coordInit =
     \<lparr>once = OnceFresh, shutdown = False, shutdownDone = False, msgCh = False,
      loopPc = LSelect, received = 0, spawned = 0, finished = {},
      closer = (\<lambda>_. CNotCalled), waiter = (\<lambda>_. WNotCalled), watcher = (\<lambda>_. XNotStarted),
      ch = (\<lambda>_. False), closeCount = 0, panicked = False, seenAtCall = (\<lambda>_. 0),
      drainedAt = (\<lambda>_. 0)\<rparr>"

text \<open>
  The events, each one statement of one goroutine.
  \<^item> \<^verbatim>\<open>Close\<close>, goroutine \<open>t\<close>: \<open>CallClose\<close> enters the function; \<open>OnceEnter\<close> is \<^verbatim>\<open>once.Do\<close> by
    the first caller, which goes on to run the function given to it; \<open>OnceBody\<close> is
    \<^verbatim>\<open>close(srv.shutdown)\<close>; \<open>OnceReturn\<close> marks the \<^verbatim>\<open>Once\<close> done and returns from \<^verbatim>\<open>Do\<close>;
    \<open>OnceSkip\<close> is \<^verbatim>\<open>once.Do\<close> by a later caller, which returns at once but only when the
    \<^verbatim>\<open>Once\<close> is done; \<open>RecvShutdownDone\<close> is \<^verbatim>\<open><-srv.shutdownDone\<close> and the return.
  \<^item> \<^verbatim>\<open>loop\<close>: \<open>LoopShutdown\<close>, \<open>LoopOutboundMsg\<close> and \<open>LoopWaitInFlight\<close> are the three cases
    of the \<^verbatim>\<open>select\<close> (the second receives a message, the third receives the channel of
    call \<open>i\<close> and starts its watcher); \<open>LoopSpawn\<close> is \<^verbatim>\<open>wg.Add(1)\<close> with the \<^verbatim>\<open>go\<close>
    statement; \<open>LoopCancel\<close>, \<open>LoopWgWait\<close>, \<open>LoopCloseMsgCh\<close>, \<open>LoopCloseDone\<close> are the
    deferred calls.
  \<^item> \<open>LifecycleDone k\<close>: the lifecycle of message \<open>k\<close> returns and calls \<^verbatim>\<open>wg.Done()\<close>.
  \<^item> \<^verbatim>\<open>WaitInFlight\<close>, call \<open>i\<close>: \<open>CallWaitInFlight\<close> enters and makes the channel; the send
    of the first \<^verbatim>\<open>select\<close> is the loop's \<open>LoopWaitInFlight\<close>; \<open>WaitRecvCh\<close> is the receive
    of the second; \<open>WaitCtxDone\<close> is the \<^verbatim>\<open>ctx.Done()\<close> case of either, with the return of
    \<^verbatim>\<open>ctx.Err()\<close>. When the context is done is not part of the model: the event is always
    possible.
  \<^item> The watcher of call \<open>i\<close>: \<open>WatcherWgWait\<close> is \<^verbatim>\<open>wg.Wait()\<close>, \<open>WatcherClose\<close> is
    \<^verbatim>\<open>close(ch)\<close>.
\<close>

datatype event =
    CallClose nat
  | OnceEnter nat
  | OnceBody nat
  | OnceReturn nat
  | OnceSkip nat
  | RecvShutdownDone nat
  | LoopShutdown
  | LoopOutboundMsg
  | LoopSpawn
  | LoopWaitInFlight nat
  | LoopCancel
  | LoopWgWait
  | LoopCloseMsgCh
  | LoopCloseDone
  | LifecycleDone nat
  | CallWaitInFlight nat
  | WaitCtxDone nat
  | WaitRecvCh nat
  | WatcherWgWait nat
  | WatcherClose nat

text \<open>The wait group counter is zero: every lifecycle goroutine started has finished.\<close>

definition wgZero :: "coord \<Rightarrow> bool" where
  "wgZero s = ({..<spawned s} \<subseteq> finished s)"

fun coordStep :: "event \<Rightarrow> coord \<Rightarrow> coord option" where
  "coordStep (CallClose t) s =
     (if closer s t = CNotCalled then Some (s\<lparr>closer := (closer s)(t := CAtDo)\<rparr>) else None)"
| "coordStep (OnceEnter t) s =
     (if closer s t = CAtDo \<and> once s = OnceFresh
      then Some (s\<lparr>once := OnceRunning, closer := (closer s)(t := CInBody)\<rparr>) else None)"
| "coordStep (OnceBody t) s =
     (if closer s t = CInBody
      then Some (s\<lparr>shutdown := True, panicked := (panicked s \<or> shutdown s),
                   closeCount := Suc (closeCount s),
                   closer := (closer s)(t := CBodyDone)\<rparr>)
      else None)"
| "coordStep (OnceReturn t) s =
     (if closer s t = CBodyDone
      then Some (s\<lparr>once := OnceDone, closer := (closer s)(t := CAtRecv)\<rparr>) else None)"
| "coordStep (OnceSkip t) s =
     (if closer s t = CAtDo \<and> once s = OnceDone
      then Some (s\<lparr>closer := (closer s)(t := CAtRecv)\<rparr>) else None)"
| "coordStep (RecvShutdownDone t) s =
     (if closer s t = CAtRecv \<and> shutdownDone s
      then Some (s\<lparr>closer := (closer s)(t := CReturned)\<rparr>) else None)"
| "coordStep LoopShutdown s =
     (if loopPc s = LSelect \<and> shutdown s then Some (s\<lparr>loopPc := LCancel\<rparr>) else None)"
| "coordStep LoopOutboundMsg s =
     (if loopPc s = LSelect
      then Some (s\<lparr>received := Suc (received s), loopPc := LWgAdd\<rparr>) else None)"
| "coordStep LoopSpawn s =
     (if loopPc s = LWgAdd
      then Some (s\<lparr>spawned := Suc (spawned s), loopPc := LSelect\<rparr>) else None)"
| "coordStep (LoopWaitInFlight i) s =
     (if loopPc s = LSelect \<and> waiter s i = WAtSend
      then Some (s\<lparr>waiter := (waiter s)(i := WAtRecv), watcher := (watcher s)(i := XAtWgWait)\<rparr>)
      else None)"
| "coordStep LoopCancel s =
     (if loopPc s = LCancel then Some (s\<lparr>loopPc := LWgWait\<rparr>) else None)"
| "coordStep LoopWgWait s =
     (if loopPc s = LWgWait \<and> wgZero s then Some (s\<lparr>loopPc := LCloseMsgCh\<rparr>) else None)"
| "coordStep LoopCloseMsgCh s =
     (if loopPc s = LCloseMsgCh
      then Some (s\<lparr>msgCh := True, panicked := (panicked s \<or> msgCh s), loopPc := LCloseDone\<rparr>)
      else None)"
| "coordStep LoopCloseDone s =
     (if loopPc s = LCloseDone
      then Some (s\<lparr>shutdownDone := True, panicked := (panicked s \<or> shutdownDone s),
                   loopPc := LExited\<rparr>)
      else None)"
| "coordStep (LifecycleDone k) s =
     (if k < spawned s \<and> k \<notin> finished s then Some (s\<lparr>finished := insert k (finished s)\<rparr>)
      else None)"
| "coordStep (CallWaitInFlight i) s =
     (if waiter s i = WNotCalled
      then Some (s\<lparr>waiter := (waiter s)(i := WAtSend),
                   seenAtCall := (seenAtCall s)(i := received s)\<rparr>)
      else None)"
| "coordStep (WaitCtxDone i) s =
     (if waiter s i = WAtSend \<or> waiter s i = WAtRecv
      then Some (s\<lparr>waiter := (waiter s)(i := WReturnedCtxErr)\<rparr>) else None)"
| "coordStep (WaitRecvCh i) s =
     (if waiter s i = WAtRecv \<and> ch s i
      then Some (s\<lparr>waiter := (waiter s)(i := WReturnedNil)\<rparr>) else None)"
| "coordStep (WatcherWgWait i) s =
     (if watcher s i = XAtWgWait \<and> wgZero s
      then Some (s\<lparr>watcher := (watcher s)(i := XAtClose),
                   drainedAt := (drainedAt s)(i := spawned s)\<rparr>)
      else None)"
| "coordStep (WatcherClose i) s =
     (if watcher s i = XAtClose
      then Some (s\<lparr>ch := (ch s)(i := True), panicked := (panicked s \<or> ch s i),
                   watcher := (watcher s)(i := XFinished)\<rparr>)
      else None)"

fun coordRun :: "event list \<Rightarrow> coord \<Rightarrow> coord option" where
  "coordRun [] s = Some s"
| "coordRun (e # es) s = (case coordStep e s of None \<Rightarrow> None | Some s' \<Rightarrow> coordRun es s')"

text \<open>
  Two invariants of the reachable states: \<open>closeInv\<close> for the shutdown (who may be inside
  \<^verbatim>\<open>once.Do\<close>, which channels are closed at which point of the loop), \<open>drainInv\<close> for the
  drain (a channel \<open>ch i\<close> is closed only by its finished watcher, and a watcher past its
  \<^verbatim>\<open>wg.Wait()\<close> has seen every lifecycle started so far finished).
\<close>

definition closeInv :: "coord \<Rightarrow> bool" where
  "closeInv s \<longleftrightarrow>
     \<not> panicked s \<and>
     closeCount s = (if shutdown s then 1 else 0) \<and>
     (once s = OnceDone \<longrightarrow> shutdown s) \<and>
     (once s = OnceFresh \<longrightarrow> \<not> shutdown s) \<and>
     (once s = OnceFresh \<longrightarrow> (\<forall>t. closer s t = CNotCalled \<or> closer s t = CAtDo)) \<and>
     (\<forall>t u. (closer s t = CInBody \<or> closer s t = CBodyDone) \<and>
            (closer s u = CInBody \<or> closer s u = CBodyDone) \<longrightarrow> t = u) \<and>
     (\<forall>t. closer s t = CInBody \<longrightarrow> once s = OnceRunning \<and> \<not> shutdown s) \<and>
     (\<forall>t. closer s t = CBodyDone \<longrightarrow> once s = OnceRunning \<and> shutdown s) \<and>
     (loopPc s \<noteq> LSelect \<and> loopPc s \<noteq> LWgAdd \<longrightarrow> shutdown s) \<and>
     (shutdownDone s \<longleftrightarrow> loopPc s = LExited) \<and>
     (msgCh s \<longleftrightarrow> loopPc s = LCloseDone \<or> loopPc s = LExited) \<and>
     (\<forall>t. closer s t = CReturned \<longrightarrow> shutdownDone s) \<and>
     (\<forall>t. closer s t = CAtRecv \<or> closer s t = CReturned \<longrightarrow> once s = OnceDone)"

definition drainInv :: "coord \<Rightarrow> bool" where
  "drainInv s \<longleftrightarrow>
     received s = (if loopPc s = LWgAdd then Suc (spawned s) else spawned s) \<and>
     (\<forall>i. ch s i \<longrightarrow> watcher s i = XFinished) \<and>
     (\<forall>i. waiter s i = WNotCalled \<or> waiter s i = WAtSend \<longrightarrow> watcher s i = XNotStarted) \<and>
     (\<forall>i. waiter s i \<noteq> WNotCalled \<longrightarrow> seenAtCall s i \<le> received s) \<and>
     (\<forall>i. watcher s i \<noteq> XNotStarted \<longrightarrow> seenAtCall s i \<le> spawned s) \<and>
     (\<forall>i. watcher s i = XAtClose \<or> watcher s i = XFinished \<longrightarrow>
          seenAtCall s i \<le> drainedAt s i \<and> drainedAt s i \<le> spawned s \<and>
          (\<forall>k. k < drainedAt s i \<longrightarrow> k \<in> finished s)) \<and>
     (\<forall>i. waiter s i = WReturnedNil \<longrightarrow> ch s i)"

section \<open>Concrete inputs\<close>

text \<open>
  Stand-ins for the two library calls, used only to evaluate the functions at concrete
  inputs: a number parses when it is a plus sign followed by digits, and the scheme of a URL
  is the text before its first colon. On the strings used below the libraries agree:
  \<^verbatim>\<open>url.Parse("nohost")\<close> succeeds with an empty scheme, \<^verbatim>\<open>url.Parse("http://test/hook")\<close>
  with the scheme \<^verbatim>\<open>http\<close>.
\<close>

definition isDigit :: "char \<Rightarrow> bool" where
  "isDigit c = (c \<in> set ''0123456789'')"

definition samplePhone :: "string \<Rightarrow> string option" where
  "samplePhone s =
     (case s of
        [] \<Rightarrow> Some ''empty''
      | c # ds \<Rightarrow> if c = CHR ''+'' \<and> ds \<noteq> [] \<and> list_all isDigit ds then None
                  else Some ''not a number'')"

definition sampleURL :: "string \<Rightarrow> string + string" where
  "sampleURL s = (if CHR '':'' \<in> set s then Inr (takeWhile (\<lambda>c. c \<noteq> CHR '':'') s) else Inr [])"

definition sampleEnv :: Env where
  "sampleEnv = \<lparr>parsePhone = samplePhone, urlParse = sampleURL\<rparr>"

definition cfg0 :: Config where
  "cfg0 = \<lparr>AccountSID = ''AC1'', AuthToken = ''token'', EnableAuth = False\<rparr>"

definition srv0 :: Server where
  "srv0 = \<lparr>cfg = cfg0, heap = [], numbersDB = Map.empty, msgSvcDB = Map.empty, srv_id = 0\<rparr>"

definition n1 :: Number where
  "n1 = \<lparr>Number = ''+15550001234'', VoiceWebhookURL = [], SMSWebhookURL = ''http://test/hook''\<rparr>"

definition n2 :: Number where
  "n2 = \<lparr>Number = ''+15550005678'', VoiceWebhookURL = ''http://test/voice'', SMSWebhookURL = []\<rparr>"

definition nBad :: Number where
  "nBad = \<lparr>Number = ''+15550001234'', VoiceWebhookURL = [], SMSWebhookURL = ''nohost''\<rparr>"

definition ms1 :: MsgService where
  "ms1 = \<lparr>ID = ''MG1'', Numbers = [''+15550001234'', ''+15550009999''],
          SMSWebhookURL = ''http://svc/hook''\<rparr>"

definition ms2 :: MsgService where
  "ms2 = \<lparr>ID = ''MG2'', Numbers = [''+15550005678'', ''+15550009999''], SMSWebhookURL = []\<rparr>"


definition msBad :: MsgService where
  "msBad = \<lparr>ID = ''XX1'', Numbers = [''+15550001234''], SMSWebhookURL = []\<rparr>"

text \<open>
  Three stores for the examples: \<open>srvA\<close> after registering \<open>n1\<close> on a new server, \<open>srvB\<close>
  after registering the service \<open>ms1\<close> on top of it, \<open>srvC\<close> after registering the service
  \<open>ms3\<close> on top of that.
\<close>

definition srvA :: Server where
  "srvA = snd (AddNumber sampleEnv n1 srv0)"

definition srvB :: Server where
  "srvB = snd (AddMsgService sampleEnv ms1 srvA)"


text \<open>
  Two runs. In \<open>closeSchedule\<close> three goroutines call \<^verbatim>\<open>Close\<close>, two of them concurrently
  and one after these have returned, while a message is in flight. In \<open>drainSchedule\<close> one
  message is submitted before a \<^verbatim>\<open>WaitInFlight\<close> call and one during it.
\<close>

definition closeSchedule :: "event list" where
  "closeSchedule =
     [LoopOutboundMsg, CallClose 0, CallClose 1, OnceEnter 1, LoopSpawn, OnceBody 1,
      LoopShutdown, OnceReturn 1, OnceSkip 0, LoopCancel, LifecycleDone 0, LoopWgWait,
      LoopCloseMsgCh, LoopCloseDone, RecvShutdownDone 0, RecvShutdownDone 1,
      CallClose 2, OnceSkip 2, RecvShutdownDone 2]"

definition drainSchedule :: "event list" where
  "drainSchedule =
     [LoopOutboundMsg, CallWaitInFlight 0, LoopSpawn, LoopWaitInFlight 0, LifecycleDone 0,
      WatcherWgWait 0, LoopOutboundMsg, LoopSpawn, WatcherClose 0, WaitRecvCh 0]"

section \<open>Properties of the routing store\<close>

subsection \<open>The invariant is kept\<close>

lemma wfD:
  "wf srv \<Longrightarrow> numbersDB srv k = Some p \<Longrightarrow> p < length (heap srv) \<and> Number (heap srv ! p) = k"
  by (simp add: wf_def)

lemma wf_lookup:
  "wf srv \<Longrightarrow> numbersDB srv k = Some p \<Longrightarrow> lookupNumber srv k = Some (heap srv ! p)"
  by (simp add: wf_def lookupNumber_def number_def deref_def)

lemma lookup_None: "numbersDB srv k = None \<Longrightarrow> lookupNumber srv k = None"
  by (simp add: lookupNumber_def number_def)

lemma wf_alloc:
  assumes "wf srv" and "Number r = k"
  shows "wf (srv\<lparr>heap := heap srv @ [r],
                 numbersDB := (numbersDB srv)(k \<mapsto> length (heap srv))\<rparr>)"
  unfolding wf_def
proof (intro allI impI)
  fix k' p
  assume h: "numbersDB (srv\<lparr>heap := heap srv @ [r],
                 numbersDB := (numbersDB srv)(k \<mapsto> length (heap srv))\<rparr>) k' = Some p"
  show "p < length (heap (srv\<lparr>heap := heap srv @ [r],
                 numbersDB := (numbersDB srv)(k \<mapsto> length (heap srv))\<rparr>)) \<and>
        Number (heap (srv\<lparr>heap := heap srv @ [r],
                 numbersDB := (numbersDB srv)(k \<mapsto> length (heap srv))\<rparr>) ! p) = k'"
  proof (cases "k' = k")
    case True
    with h have "p = length (heap srv)" by simp
    with True assms(2) show ?thesis by simp
  next
    case False
    with h have "numbersDB srv k' = Some p" by simp
    from wfD [OF assms(1) this] show ?thesis by (simp add: nth_append)
  qed
qed

lemma wf_setSMSWebhookURL:
  assumes "wf srv"
  shows "wf (setSMSWebhookURL p u srv)"
  unfolding wf_def
proof (intro allI impI)
  fix k q
  assume "numbersDB (setSMSWebhookURL p u srv) k = Some q"
  then have "numbersDB srv k = Some q" by (simp add: setSMSWebhookURL_def)
  from wfD [OF assms this]
  show "q < length (heap (setSMSWebhookURL p u srv)) \<and>
        Number (heap (setSMSWebhookURL p u srv) ! q) = k"
    by (cases "q = p") (simp_all add: setSMSWebhookURL_def)
qed

lemma wf_appendMember: "wf srv \<Longrightarrow> wf (appendMember i p srv)"
  by (simp add: wf_def appendMember_def)

lemma wf_findOrCreate: "wf srv \<Longrightarrow> wf (snd (findOrCreate y srv))"
  by (cases "numbersDB srv y") (simp_all add: findOrCreate_def wf_alloc bareNumber_def)

lemma AddNumber_error: "AddNumber env n srv = (Some e, srv') \<Longrightarrow> srv' = srv"
  by (auto simp: AddNumber_def split: option.splits if_splits)

lemma AddNumber_ok:
  "AddNumber env n srv = (None, srv') \<Longrightarrow>
     numbersDB srv (Number n) = None \<and>
     srv' = srv\<lparr>heap := heap srv @ [n],
                numbersDB := (numbersDB srv)(Number n \<mapsto> length (heap srv))\<rparr>"
  by (auto simp: AddNumber_def split: option.splits if_splits)

lemma wf_AddNumber: "wf srv \<Longrightarrow> wf (snd (AddNumber env n srv))"
proof (cases "AddNumber env n srv")
  case (Pair r srv')
  assume w: "wf srv"
  show ?thesis
  proof (cases r)
    case None
    with Pair AddNumber_ok [of env n srv srv'] w show ?thesis by (simp add: wf_alloc)
  next
    case (Some e)
    with Pair AddNumber_error [of env n srv e srv'] w show ?thesis by simp
  qed
qed

lemma lookup_alloc:
  assumes "wf srv"
  shows "lookupNumber (srv\<lparr>heap := heap srv @ [r],
                 numbersDB := (numbersDB srv)(k \<mapsto> length (heap srv))\<rparr>) k' =
         (if k' = k then Some r else lookupNumber srv k')"
proof (cases "k' = k")
  case True
  then show ?thesis by (simp add: lookupNumber_def number_def deref_def)
next
  case False
  show ?thesis
  proof (cases "numbersDB srv k'")
    case None
    with False show ?thesis by (simp add: lookupNumber_def number_def)
  next
    case (Some p)
    from wfD [OF assms this] Some False show ?thesis
      by (simp add: lookupNumber_def number_def deref_def nth_append)
  qed
qed

lemma lookup_AddNumber_ok:
  "wf srv \<Longrightarrow> AddNumber env n srv = (None, srv') \<Longrightarrow>
     lookupNumber srv' k = (if k = Number n then Some n else lookupNumber srv k)"
  using AddNumber_ok [of env n srv srv'] by (simp add: lookup_alloc)

lemma lookup_appendMember: "lookupNumber (appendMember i p srv) k = lookupNumber srv k"
  by (simp add: appendMember_def lookupNumber_def number_def deref_def split: option.splits)

lemma number_appendMember: "number (appendMember i p srv) k = number srv k"
  by (simp add: appendMember_def number_def)

lemma lookup_setSMSWebhookURL:
  assumes "wf srv" and "numbersDB srv y = Some p"
  shows "lookupNumber (setSMSWebhookURL p u srv) k =
     (if k = y then Some ((heap srv ! p)\<lparr>SMSWebhookURL := u\<rparr>) else lookupNumber srv k)"
proof (cases "numbersDB srv k")
  case None
  with assms(2) show ?thesis
    by (auto simp: lookupNumber_def number_def setSMSWebhookURL_def)
next
  case (Some q)
  from wfD [OF assms(1) Some] wfD [OF assms] Some assms(2) show ?thesis
    by (auto simp: lookupNumber_def number_def setSMSWebhookURL_def deref_def nth_list_update)
qed

lemma findOrCreate_props:
  assumes "wf srv" and "findOrCreate y srv = (p, srv1)"
  shows "wf srv1" and "numbersDB srv1 y = Some p"
    and "lookupNumber srv1 k = (if k = y then Some (recordOrBare srv y) else lookupNumber srv k)"
    and "number srv1 k =
          (if k = y then Some (case number srv y of Some q \<Rightarrow> q | None \<Rightarrow> length (heap srv))
           else number srv k)"
    and "msgSvcDB srv1 = msgSvcDB srv"
proof -
  show "wf srv1" using wf_findOrCreate [OF assms(1), of y] assms(2) by simp
  show "numbersDB srv1 y = Some p"
    using assms(2) by (auto simp: findOrCreate_def split: option.splits)
  show "lookupNumber srv1 k = (if k = y then Some (recordOrBare srv y) else lookupNumber srv k)"
  proof (cases "numbersDB srv y")
    case None
    with assms(2) have "srv1 = srv\<lparr>heap := heap srv @ [bareNumber y],
               numbersDB := (numbersDB srv)(y \<mapsto> length (heap srv))\<rparr>"
      by (auto simp: findOrCreate_def)
    with None show ?thesis
      by (simp add: lookup_alloc [OF assms(1)] recordOrBare_def lookup_None)
  next
    case (Some q)
    with assms(2) have "srv1 = srv" by (simp add: findOrCreate_def)
    with Some show ?thesis
      by (simp add: recordOrBare_def wf_lookup [OF assms(1) Some])
  qed
  show "number srv1 k =
          (if k = y then Some (case number srv y of Some q \<Rightarrow> q | None \<Rightarrow> length (heap srv))
           else number srv k)"
    using assms(2) by (auto simp: findOrCreate_def number_def split: option.splits)
  show "msgSvcDB srv1 = msgSvcDB srv"
    using assms(2) by (auto simp: findOrCreate_def split: option.splits)
qed

lemma number_setSMSWebhookURL: "number (setSMSWebhookURL p u srv) k = number srv k"
  by (simp add: setSMSWebhookURL_def number_def)


lemma wf_addMember: "wf srv \<Longrightarrow> wf (addMember ms srv y)"
  using wf_findOrCreate [of srv y]
  by (cases "findOrCreate y srv")
     (simp add: addMember_def Let_def wf_appendMember wf_setSMSWebhookURL)

lemma wf_addMembers: "wf srv \<Longrightarrow> wf (addMembers ms xs srv)"
  by (induction xs arbitrary: srv) (auto simp: wf_addMember)

lemma lookup_addMember:
  assumes "wf srv"
  shows "lookupNumber (addMember ms srv y) k =
     (if k = y then Some (applyOverride ms (recordOrBare srv y)) else lookupNumber srv k)"
proof (cases "findOrCreate y srv")
  case (Pair p srv1)
  note fc = findOrCreate_props [OF assms Pair]
  let ?srv2 = "appendMember (ID ms) p srv1"
  have w2: "wf ?srv2" using fc(1) by (rule wf_appendMember)
  have n2: "numbersDB ?srv2 y = Some p" using fc(2) by (simp add: appendMember_def)
  have h2: "heap ?srv2 = heap srv1" by (simp add: appendMember_def)
  have l1: "lookupNumber srv1 y = Some (heap srv1 ! p)" using fc(1,2) by (rule wf_lookup)
  have rb: "heap srv1 ! p = recordOrBare srv y" using l1 fc(3) [of y] by simp
  show ?thesis
  proof (cases "MsgService.SMSWebhookURL ms = []")
    case True
    with Pair show ?thesis
      by (simp add: addMember_def Let_def lookup_appendMember fc(3) applyOverride_def)
  next
    case False
    with Pair show ?thesis
      by (simp add: addMember_def Let_def lookup_setSMSWebhookURL [OF w2 n2] h2 rb
            lookup_appendMember fc(3) applyOverride_def)
  qed
qed

lemma applyOverride_idem: "applyOverride ms (applyOverride ms r) = applyOverride ms r"
  by (simp add: applyOverride_def)

lemma lookup_addMembers:
  "wf srv \<Longrightarrow>
   lookupNumber (addMembers ms xs srv) k =
     (if k \<in> set xs then Some (applyOverride ms (recordOrBare srv k)) else lookupNumber srv k)"
proof (induction xs arbitrary: srv)
  case Nil
  then show ?case by simp
next
  case (Cons y ys)
  have w1: "wf (addMember ms srv y)" using Cons.prems by (rule wf_addMember)
  have r1: "recordOrBare (addMember ms srv y) k =
      (if k = y then applyOverride ms (recordOrBare srv y) else recordOrBare srv k)"
    using Cons.prems by (simp add: recordOrBare_def lookup_addMember)
  show ?case
  proof (cases "k \<in> set ys")
    case True
    then show ?thesis
      using Cons.IH [OF w1, of ] r1 by (simp add: applyOverride_idem)
  next
    case False
    then show ?thesis
      using Cons.IH [OF w1] by (simp add: lookup_addMember [OF Cons.prems])
  qed
qed

lemma AddMsgService_error: "AddMsgService env ms srv = (Some e, srv') \<Longrightarrow> srv' = srv"
  by (auto simp: AddMsgService_def split: option.splits if_splits)

lemma AddMsgService_ok:
  "AddMsgService env ms srv = (None, srv') \<Longrightarrow>
     msgSvcDB srv (ID ms) = None \<and> srv' = addMembers ms (Numbers ms) srv"
  by (auto simp: AddMsgService_def split: option.splits if_splits)

lemma snd_AddMsgService:
  "snd (AddMsgService env ms srv) = srv \<or>
   snd (AddMsgService env ms srv) = addMembers ms (Numbers ms) srv"
  by (auto simp: AddMsgService_def split: option.splits if_splits)

lemma snd_AddNumber:
  "snd (AddNumber env n srv) = srv \<or>
   (numbersDB srv (Number n) = None \<and>
    snd (AddNumber env n srv) = srv\<lparr>heap := heap srv @ [n],
                numbersDB := (numbersDB srv)(Number n \<mapsto> length (heap srv))\<rparr>)"
  by (auto simp: AddNumber_def split: option.splits if_splits)

lemma wf_AddMsgService: "wf srv \<Longrightarrow> wf (snd (AddMsgService env ms srv))"
  using snd_AddMsgService [of env ms srv] by (auto simp: wf_addMembers)

lemma wf_applyOp: "wf srv \<Longrightarrow> wf (applyOp env srv x)"
  by (cases x) (simp_all add: wf_AddNumber wf_AddMsgService)

lemma wf_run: "wf srv \<Longrightarrow> wf (run env xs srv)"
  by (induction xs arbitrary: srv) (simp_all add: wf_applyOp)

lemma wf_NewServer: "NewServer c = Some srv \<Longrightarrow> wf srv"
  by (auto simp: NewServer_def wf_def split: if_splits)

text \<open>Every store a server can reach by registrations is well-formed.\<close>

lemma wf_reachable: "NewServer c = Some srv \<Longrightarrow> wf (run env ops srv)"
  by (rule wf_run) (rule wf_NewServer)

subsection \<open>Lookup after registration\<close>

lemma lookup_applyOp:
  assumes "wf srv" and "\<not> targets x k"
  shows "lookupNumber (applyOp env srv x) k = lookupNumber srv k"
proof (cases x)
  case (OpAddNumber n)
  with assms(2) have ne: "k \<noteq> Number n" by auto
  from snd_AddNumber [of env n srv] show ?thesis
    using OpAddNumber ne by (auto simp: lookup_alloc [OF assms(1)])
next
  case (OpAddMsgService ms)
  with assms(2) have "k \<notin> set (Numbers ms)" by simp
  with snd_AddMsgService [of env ms srv] show ?thesis
    using OpAddMsgService by (auto simp: lookup_addMembers [OF assms(1)])
qed

lemma lookup_run:
  "wf srv \<Longrightarrow> \<forall>x\<in>set xs. \<not> targets x k \<Longrightarrow> lookupNumber (run env xs srv) k = lookupNumber srv k"
  by (induction xs arbitrary: srv) (simp_all add: lookup_applyOp wf_applyOp)

text \<open>
  Claim C1. Let \<open>AddNumber\<close> accept the number \<open>n\<close> in a well-formed store, and let any
  sequence of further registrations follow, none of which targets the identity of \<open>n\<close>
  (no \<open>AddNumber\<close> with that number string, no \<open>AddMsgService\<close> with it among its members).
  Then looking the identity up gives a record equal to \<open>n\<close>: the same number string and the
  same voice and SMS webhook URLs. Well-formedness (\<open>wf\<close>) holds of the store of a new server
  and is kept by every registration (\<open>wf_NewServer\<close>, \<open>wf_run\<close>).
\<close>

theorem lookup_after_register:
  assumes "wf srv" and "AddNumber env n srv = (None, srv1)"
    and "\<forall>x\<in>set ops. \<not> targets x (Number n)"
  shows "lookupNumber (run env ops srv1) (Number n) = Some n"
proof -
  have "wf srv1" using wf_AddNumber [OF assms(1), of env n] assms(2) by simp
  from lookup_run [OF this assms(3)] show ?thesis
    by (simp add: lookup_AddNumber_ok [OF assms(1,2)])
qed

subsection \<open>Validation and duplicates\<close>

lemma checkNumbers_None:
  "checkNumbers env xs = None \<longleftrightarrow> list_all (\<lambda>nStr. parsePhone env nStr = None) xs"
  by (induction xs) (auto split: option.splits)

lemma checkNumbers_Some:
  "checkNumbers env xs = Some e \<Longrightarrow> isValidationError e"
  by (induction xs) (auto split: option.splits)

lemma validateURL_Some: "validateURL env u = Some e \<Longrightarrow> isValidationError e"
  by (auto simp: validateURL_def split: sum.splits if_splits)

lemma AddNumber_invalid:
  "\<not> validNumber env n \<Longrightarrow> \<exists>e. AddNumber env n srv = (Some e, srv) \<and> isValidationError e"
  by (auto simp: AddNumber_def validNumber_def dest: validateURL_Some split: option.splits)

lemma AddMsgService_invalid:
  "\<not> validMsgService env ms \<Longrightarrow>
     \<exists>e. AddMsgService env ms srv = (Some e, srv) \<and> isValidationError e"
  by (auto simp: AddMsgService_def validMsgService_def checkNumbers_None [symmetric]
      dest: validateURL_Some checkNumbers_Some split: option.splits)

lemma AddNumber_valid:
  "validNumber env n \<Longrightarrow>
     AddNumber env n srv =
       (case numbersDB srv (Number n) of
          Some _ \<Rightarrow> (Some (NumberExists (Number n)), srv)
        | None \<Rightarrow> (None, srv\<lparr>heap := heap srv @ [n],
                     numbersDB := (numbersDB srv)(Number n \<mapsto> length (heap srv))\<rparr>))"
  by (auto simp: AddNumber_def validNumber_def split: option.splits)

lemma AddMsgService_valid:
  "validMsgService env ms \<Longrightarrow>
     AddMsgService env ms srv =
       (case msgSvcDB srv (ID ms) of
          Some _ \<Rightarrow> (Some (MsgServiceExists (ID ms)), srv)
        | None \<Rightarrow> (None, addMembers ms (Numbers ms) srv))"
  by (auto simp: AddMsgService_def validMsgService_def checkNumbers_None [symmetric]
      split: option.splits)

subsection \<open>Messaging services and their members\<close>







lemma SMS_applyOverride:
  "SMSWebhookURL (applyOverride ms r) =
     (if MsgService.SMSWebhookURL ms \<noteq> [] then MsgService.SMSWebhookURL ms else SMSWebhookURL r)"
  by (simp add: applyOverride_def)

lemma Number_applyOverride: "Number (applyOverride ms r) = Number r"
  by (simp add: applyOverride_def)

lemma Voice_applyOverride: "VoiceWebhookURL (applyOverride ms r) = VoiceWebhookURL r"
  by (simp add: applyOverride_def)

lemma Number_recordOrBare: "wf srv \<Longrightarrow> Number (recordOrBare srv x) = x"
  by (cases "numbersDB srv x")
     (simp_all add: recordOrBare_def lookup_None bareNumber_def wf_lookup wfD)



text \<open>
  Claim C10. When the service has a non-empty \<open>SMSWebhookURL\<close>, a successful
  \<open>AddMsgService\<close> writes it into the record of every member in the shared number store,
  whether the call created the record or the member had been registered before with a URL
  of its own: looking a member up afterwards gives the service's URL. The number string and
  the voice webhook of the record stay as they were.
\<close>

theorem override_overwrites_members:
  assumes "wf srv" and "AddMsgService env ms srv = (None, srv')"
    and "MsgService.SMSWebhookURL ms \<noteq> []" and "x \<in> set (Numbers ms)"
  shows "\<exists>r. lookupNumber srv' x = Some r \<and> Number r = x \<and>
             SMSWebhookURL r = MsgService.SMSWebhookURL ms \<and>
             VoiceWebhookURL r = (case lookupNumber srv x of Some old \<Rightarrow> VoiceWebhookURL old | None \<Rightarrow> [])"
proof -
  from AddMsgService_ok [OF assms(2)]
  have s': "srv' = addMembers ms (Numbers ms) srv" by simp
  have "lookupNumber srv' x = Some (applyOverride ms (recordOrBare srv x))"
    using assms(4) by (simp add: s' lookup_addMembers [OF assms(1)])
  moreover have "Number (applyOverride ms (recordOrBare srv x)) = x"
    by (simp add: Number_applyOverride Number_recordOrBare [OF assms(1)])
  moreover have "SMSWebhookURL (applyOverride ms (recordOrBare srv x)) = MsgService.SMSWebhookURL ms"
    using assms(3) by (simp add: SMS_applyOverride)
  moreover have "VoiceWebhookURL (applyOverride ms (recordOrBare srv x)) =
      (case lookupNumber srv x of Some old \<Rightarrow> VoiceWebhookURL old | None \<Rightarrow> [])"
    by (simp add: Voice_applyOverride recordOrBare_def bareNumber_def split: option.splits)
  ultimately show ?thesis by blast
qed

subsection \<open>The concrete stores\<close>

lemma NewServer_cfg0: "NewServer cfg0 = Some srv0"
  by (simp add: NewServer_def cfg0_def srv0_def)

lemma wf_srv0: "wf srv0"
  using NewServer_cfg0 by (rule wf_NewServer)

lemmas sample_defs = sampleEnv_def samplePhone_def sampleURL_def isDigit_def validateURL_def
  n1_def n2_def nBad_def ms1_def ms2_def msBad_def

lemma valid_n1: "validNumber sampleEnv n1"
  by (simp add: validNumber_def sample_defs)

lemma valid_n2: "validNumber sampleEnv n2"
  by (simp add: validNumber_def sample_defs)

lemma valid_ms1: "validMsgService sampleEnv ms1"
  by (simp add: validMsgService_def hasPrefixMG_def sample_defs)

lemma valid_ms2: "validMsgService sampleEnv ms2"
  by (simp add: validMsgService_def hasPrefixMG_def sample_defs)

lemma AddNumber_n1_srv0:
  "AddNumber sampleEnv n1 srv0 = (None, srv0\<lparr>heap := [n1], numbersDB := [Number n1 \<mapsto> 0]\<rparr>)"
  by (simp add: AddNumber_valid [OF valid_n1] srv0_def)

theorem lookup_after_register_witness:
  "lookupNumber (run sampleEnv [OpAddNumber n2, OpAddMsgService ms2]
      (snd (AddNumber sampleEnv n1 srv0))) ''+15550001234'' = Some n1"
proof -
  have a: "AddNumber sampleEnv n1 srv0 = (None, snd (AddNumber sampleEnv n1 srv0))"
    by (simp add: AddNumber_n1_srv0)
  have t: "\<forall>x\<in>set [OpAddNumber n2, OpAddMsgService ms2]. \<not> targets x (Number n1)"
    by (simp add: n1_def n2_def ms2_def)
  from lookup_after_register [OF wf_srv0 a t] show ?thesis by (simp add: n1_def)
qed

lemma srvA_eq: "srvA = srv0\<lparr>heap := [n1], numbersDB := [Number n1 \<mapsto> 0]\<rparr>"
  by (simp add: srvA_def AddNumber_n1_srv0)

lemma wf_srvA: "wf srvA"
  unfolding srvA_def using wf_srv0 by (rule wf_AddNumber)

lemma AddMsgService_fresh:
  "validMsgService env ms \<Longrightarrow> msgSvcDB srv (ID ms) = None \<Longrightarrow>
     AddMsgService env ms srv = (None, addMembers ms (Numbers ms) srv)"
  by (simp add: AddMsgService_valid)

lemma msgSvcDB_srvA: "msgSvcDB srvA k = None"
  by (simp add: srvA_eq srv0_def)

lemma srvB_eq: "srvB = addMembers ms1 (Numbers ms1) srvA"
  by (simp add: srvB_def AddMsgService_fresh [OF valid_ms1 msgSvcDB_srvA])

lemma AddMsgService_ms1_srvA: "AddMsgService sampleEnv ms1 srvA = (None, srvB)"
  by (simp add: srvB_eq AddMsgService_fresh [OF valid_ms1 msgSvcDB_srvA])


lemma numberSvc_srvB: "numberSvc srvB ''MG1'' = [0, 1]"
  by (simp add: srvB_eq srvA_eq srv0_def ms1_def n1_def
        addMember_def findOrCreate_def appendMember_def setSMSWebhookURL_def Let_def
        numberSvc_def)

lemma lookup_srvA: "lookupNumber srvA ''+15550001234'' = Some n1"
  by (simp add: srvA_eq lookupNumber_def number_def deref_def n1_def)

lemma lookup_srvA_other: "lookupNumber srvA ''+15550009999'' = None"
  by (simp add: srvA_eq srv0_def lookupNumber_def number_def deref_def n1_def)


theorem override_overwrites_members_witness:
  "map_option SMSWebhookURL (lookupNumber srvA ''+15550001234'') = Some ''http://test/hook'' \<and>
   map_option SMSWebhookURL (lookupNumber srvB ''+15550001234'') = Some ''http://svc/hook''"
proof -
  have x: "''+15550001234'' \<in> set (Numbers ms1)" by (simp add: ms1_def)
  have u: "MsgService.SMSWebhookURL ms1 \<noteq> []" by (simp add: ms1_def)
  from override_overwrites_members [OF wf_srvA AddMsgService_ms1_srvA u x]
  obtain r where "lookupNumber srvB ''+15550001234'' = Some r"
    and "SMSWebhookURL r = MsgService.SMSWebhookURL ms1" by auto
  then show ?thesis by (simp add: lookup_srvA n1_def ms1_def)
qed

subsection \<open>Duplicate and invalid registrations\<close>

text \<open>
  Claim C2, as amended. In a store where the number string of \<open>n\<close> is already a key of the
  number table, \<open>AddNumber\<close> returns an error and the store it leaves is the store it found;
  the error is the "already exists" error when \<open>n\<close> passes the validation that comes first
  in the function, and a validation error otherwise. The same holds of \<open>AddMsgService\<close> for
  a service ID that is already a key of the service table.
\<close>

theorem duplicate_registration_rejected:
  "(numbersDB srv (Number n) \<noteq> None \<longrightarrow>
      (\<exists>e. AddNumber env n srv = (Some e, srv) \<and>
           (if validNumber env n then e = NumberExists (Number n) else isValidationError e))) \<and>
   (msgSvcDB srv (ID ms) \<noteq> None \<longrightarrow>
      (\<exists>e. AddMsgService env ms srv = (Some e, srv) \<and>
           (if validMsgService env ms then e = MsgServiceExists (ID ms)
            else isValidationError e)))"
proof (intro conjI impI)
  assume "numbersDB srv (Number n) \<noteq> None"
  then show "\<exists>e. AddNumber env n srv = (Some e, srv) \<and>
           (if validNumber env n then e = NumberExists (Number n) else isValidationError e)"
    using AddNumber_invalid [of env n srv] AddNumber_valid [of env n srv]
    by (cases "validNumber env n") auto
next
  assume "msgSvcDB srv (ID ms) \<noteq> None"
  then show "\<exists>e. AddMsgService env ms srv = (Some e, srv) \<and>
           (if validMsgService env ms then e = MsgServiceExists (ID ms)
            else isValidationError e)"
    using AddMsgService_invalid [of env ms srv] AddMsgService_valid [of env ms srv]
    by (cases "validMsgService env ms") auto
qed

theorem duplicate_registration_rejected_witness:
  "AddNumber sampleEnv n1 srvA = (Some (NumberExists ''+15550001234''), srvA) \<and>
   AddMsgService sampleEnv ms1 srvB = (Some (MsgServiceExists ''MG1''), srvB)"
proof -
  have a: "numbersDB srvA (Number n1) \<noteq> None" by (simp add: srvA_eq)
  have "numberSvc srvB (ID ms1) \<noteq> []" by (simp add: numberSvc_srvB ms1_def)
  then have b: "msgSvcDB srvB (ID ms1) \<noteq> None"
    by (auto simp: numberSvc_def split: option.splits)
  from duplicate_registration_rejected [where srv = srvA and n = n1 and env = sampleEnv]
    a valid_n1
  have "AddNumber sampleEnv n1 srvA = (Some (NumberExists (Number n1)), srvA)" by auto
  moreover
  from duplicate_registration_rejected [where srv = srvB and ms = ms1 and env = sampleEnv]
    b valid_ms1
  have "AddMsgService sampleEnv ms1 srvB = (Some (MsgServiceExists (ID ms1)), srvB)" by auto
  ultimately show ?thesis by (simp add: n1_def ms1_def)
qed

text \<open>
  A service without members leaves no entry in the service table (the entry is made by the
  first \<^verbatim>\<open>append\<close> in the loop), so its ID is not found by a later call.
\<close>

lemma AddMsgService_no_members:
  "validMsgService env ms \<Longrightarrow> Numbers ms = [] \<Longrightarrow> msgSvcDB srv (ID ms) = None \<Longrightarrow>
     AddMsgService env ms srv = (None, srv)"
  by (simp add: AddMsgService_valid)

text \<open>
  The claim as stated fails: re-registering the identity \<open>+15550001234\<close> with an SMS webhook
  that has no scheme is answered by the validation error, not by the duplicate error.
\<close>

theorem duplicate_registration_counterexample:
  "numbersDB srvA (Number nBad) = Some 0 \<and>
   AddNumber sampleEnv nBad srvA = (Some (MissingScheme ''nohost''), srvA) \<and>
   \<not> isDuplicateError (MissingScheme ''nohost'')"
  by (simp add: srvA_eq AddNumber_def sample_defs)

text \<open>
  Claim C3. \<open>AddNumber\<close> returns a validation error, and the store unchanged, when the number
  string does not parse or when a non-empty SMS or voice webhook URL parses to an empty
  scheme; \<open>AddMsgService\<close> does so when the ID does not start with \<open>MG\<close>, when its non-empty
  SMS webhook URL parses to an empty scheme, or when one of its member strings does not
  parse. In each case the function returns before it reads or writes a table.
\<close>

theorem validation_rejects_before_write:
  "(parsePhone env (Number n) \<noteq> None \<or>
    (SMSWebhookURL n \<noteq> [] \<and> urlParse env (SMSWebhookURL n) = Inr []) \<or>
    (VoiceWebhookURL n \<noteq> [] \<and> urlParse env (VoiceWebhookURL n) = Inr []) \<longrightarrow>
      (\<exists>e. AddNumber env n srv = (Some e, srv) \<and> isValidationError e)) \<and>
   (\<not> hasPrefixMG (ID ms) \<or>
    (MsgService.SMSWebhookURL ms \<noteq> [] \<and> urlParse env (MsgService.SMSWebhookURL ms) = Inr []) \<or>
    (\<exists>nStr\<in>set (Numbers ms). parsePhone env nStr \<noteq> None) \<longrightarrow>
      (\<exists>e. AddMsgService env ms srv = (Some e, srv) \<and> isValidationError e))"
proof (intro conjI impI)
  assume "parsePhone env (Number n) \<noteq> None \<or>
    (SMSWebhookURL n \<noteq> [] \<and> urlParse env (SMSWebhookURL n) = Inr []) \<or>
    (VoiceWebhookURL n \<noteq> [] \<and> urlParse env (VoiceWebhookURL n) = Inr [])"
  then have "\<not> validNumber env n"
    by (auto simp: validNumber_def validateURL_def)
  then show "\<exists>e. AddNumber env n srv = (Some e, srv) \<and> isValidationError e"
    by (rule AddNumber_invalid)
next
  assume "\<not> hasPrefixMG (ID ms) \<or>
    (MsgService.SMSWebhookURL ms \<noteq> [] \<and> urlParse env (MsgService.SMSWebhookURL ms) = Inr []) \<or>
    (\<exists>nStr\<in>set (Numbers ms). parsePhone env nStr \<noteq> None)"
  then have "\<not> validMsgService env ms"
    by (auto simp: validMsgService_def validateURL_def list_all_iff)
  then show "\<exists>e. AddMsgService env ms srv = (Some e, srv) \<and> isValidationError e"
    by (rule AddMsgService_invalid)
qed

theorem validation_rejects_before_write_witness:
  "fst (AddNumber sampleEnv nBad srv0) = Some (MissingScheme ''nohost'') \<and>
   snd (AddNumber sampleEnv nBad srv0) = srv0 \<and>
   fst (AddMsgService sampleEnv msBad srv0) = Some (InvalidMsgServiceSID ''XX1'') \<and>
   snd (AddMsgService sampleEnv msBad srv0) = srv0"
proof -
  have a: "SMSWebhookURL nBad \<noteq> [] \<and> urlParse sampleEnv (SMSWebhookURL nBad) = Inr []"
    by (simp add: sample_defs)
  have b: "\<not> hasPrefixMG (ID msBad)" by (simp add: hasPrefixMG_def msBad_def)
  from validation_rejects_before_write
    [where env = sampleEnv and n = nBad and srv = srv0 and ms = msBad] a b
  obtain e1 e2 where "AddNumber sampleEnv nBad srv0 = (Some e1, srv0)"
    and "AddMsgService sampleEnv msBad srv0 = (Some e2, srv0)" by auto
  moreover have "fst (AddNumber sampleEnv nBad srv0) = Some (MissingScheme ''nohost'')"
    by (simp add: AddNumber_def sample_defs)
  moreover have "fst (AddMsgService sampleEnv msBad srv0) = Some (InvalidMsgServiceSID ''XX1'')"
    by (simp add: AddMsgService_def hasPrefixMG_def msBad_def)
  ultimately show ?thesis by simp
qed

subsection \<open>Later registrations\<close>














section \<open>Properties of the ID issuer\<close>

declare decimal.simps [simp del]

lemma digitVal_digitChar: "d < 10 \<Longrightarrow> digitVal (digitChar d) = d"
proof -
  assume "d < 10"
  then have "d \<in> {0, 1, 2, 3, 4, 5, 6, 7, 8, 9}" by auto
  then show ?thesis
    by (auto simp: digitVal_def digitChar_def)
qed

lemma readDecimal_snoc: "readDecimal (s @ [c]) = 10 * readDecimal s + digitVal c"
  by (simp add: readDecimal_def)

lemma readDecimal_decimal: "readDecimal (decimal n) = n"
proof (induction n rule: decimal.induct)
  case (1 n)
  show ?case
  proof (cases "n < 10")
    case True
    then show ?thesis
      by (simp add: decimal.simps [of n] readDecimal_def digitVal_digitChar)
  next
    case False
    with "1" have "readDecimal (decimal (n div 10)) = n div 10" by simp
    with False show ?thesis
      by (simp add: decimal.simps [of n] readDecimal_snoc digitVal_digitChar)
  qed
qed

lemma digitVal_zero: "digitVal (CHR ''0'') = 0"
  by (simp add: digitVal_def)

lemma foldl_zeros:
  "foldl (\<lambda>a c. 10 * a + digitVal c) 0 (replicate k (CHR ''0'')) = 0"
  by (induction k) (simp_all add: digitVal_zero)

lemma readDecimal_zeroPad: "readDecimal (zeroPad w s) = readDecimal s"
  by (simp add: zeroPad_def readDecimal_def foldl_zeros)

lemma length_decimal: "0 < k \<Longrightarrow> n < 10 ^ k \<Longrightarrow> length (decimal n) \<le> k"
proof (induction n arbitrary: k rule: decimal.induct)
  case (1 n)
  show ?case
  proof (cases "n < 10")
    case True
    with "1.prems" show ?thesis by (simp add: decimal.simps [of n])
  next
    case False
    obtain k' where k: "k = Suc k'" using "1.prems"(1) by (cases k) auto
    have "k' \<noteq> 0"
    proof
      assume "k' = 0"
      with k "1.prems"(2) False show False by simp
    qed
    then have pos: "0 < k'" by simp
    have "n div 10 < 10 ^ k'" using "1.prems"(2) k by (simp add: less_mult_imp_div_less)
    from "1.IH" [OF False pos this] k False show ?thesis
      by (simp add: decimal.simps [of n])
  qed
qed

lemma length_zeroPad: "length s \<le> w \<Longrightarrow> length (zeroPad w s) = w"
  by (simp add: zeroPad_def)

lemma unat_lt_10_32: "unat (v :: 64 word) < 10 ^ 32"
proof -
  have "unat v < 2 ^ 64" using unsigned_less [of v] by simp
  also have "(2::nat) ^ 64 \<le> 10 ^ 32" by simp
  finally show ?thesis .
qed

lemma length_pad32: "n < 10 ^ 32 \<Longrightarrow> length (zeroPad 32 (decimal n)) = 32"
  by (rule length_zeroPad) (rule length_decimal, simp_all)

lemma numericPart_sprintfID: "n < 10 ^ 32 \<Longrightarrow> numericPart (sprintfID prefix n) = n"
  by (simp add: numericPart_def sprintfID_def length_pad32 readDecimal_zeroPad
        readDecimal_decimal)

lemma decimal_digit: "n < 10 \<Longrightarrow> decimal n = [digitChar n]"
  by (simp add: decimal.simps [of n])

lemma issue_Cons:
  "issue (prefix # rest) srv =
     (sprintfID prefix (unat (srv_id srv + 1)) # fst (issue rest (srv\<lparr>srv_id := srv_id srv + 1\<rparr>)),
      snd (issue rest (srv\<lparr>srv_id := srv_id srv + 1\<rparr>)))"
  by (simp add: nextID_def Let_def split: prod.splits)

lemma length_issue: "length (fst (issue ps srv)) = length ps"
  by (induction ps arbitrary: srv) (simp_all add: issue_Cons del: issue.simps(2))

lemma srv_id_issue: "srv_id (snd (issue ps srv)) = srv_id srv + of_nat (length ps)"
  by (induction ps arbitrary: srv) (simp_all add: issue_Cons del: issue.simps(2))

lemma nth_issue:
  "j < length ps \<Longrightarrow>
     fst (issue ps srv) ! j = sprintfID (ps ! j) (unat (srv_id srv + of_nat (Suc j)))"
proof (induction ps arbitrary: srv j)
  case Nil
  then show ?case by simp
next
  case (Cons prefix rest)
  show ?case
  proof (cases j)
    case 0
    then show ?thesis by (simp add: issue_Cons del: issue.simps(2))
  next
    case (Suc j')
    with Cons.prems have "j' < length rest" by simp
    from Cons.IH [OF this, of "srv\<lparr>srv_id := srv_id srv + 1\<rparr>"] Suc show ?thesis
      by (simp add: issue_Cons add.assoc del: issue.simps(2))
  qed
qed

lemma unat_counter:
  assumes "unat (c :: 64 word) + k < 2 ^ 64"
  shows "unat (c + of_nat k) = unat c + k"
proof -
  have "unat (c + of_nat k) = (unat c + k) mod 2 ^ 64"
    by (simp add: unat_word_ariths unat_of_nat mod_add_right_eq)
  with assms show ?thesis by simp
qed

lemma nth_issue_bounded:
  assumes "unat (srv_id srv) + length ps < 2 ^ 64" and "j < length ps"
  shows "fst (issue ps srv) ! j = sprintfID (ps ! j) (unat (srv_id srv) + Suc j)"
proof -
  have "unat (srv_id srv) + Suc j < 2 ^ 64" using assms by simp
  from unat_counter [OF this] nth_issue [OF assms(2), of srv] show ?thesis by simp
qed

lemma numericPart_issue:
  assumes "unat (srv_id srv) + length ps < 2 ^ 64" and "j < length ps"
  shows "numericPart (fst (issue ps srv) ! j) = unat (srv_id srv) + Suc j"
proof -
  have "unat (srv_id srv) + Suc j < 2 ^ 64" using assms by simp
  also have "(2::nat) ^ 64 \<le> 10 ^ 32" by simp
  finally have "unat (srv_id srv) + Suc j < 10 ^ 32" .
  then show ?thesis
    by (simp only: nth_issue_bounded [OF assms] numericPart_sprintfID)
qed

text \<open>The registration functions leave the counter alone.\<close>

lemma srv_id_addMembers: "srv_id (addMembers ms xs srv) = srv_id srv"
  by (induction xs arbitrary: srv)
     (simp_all add: addMember_def findOrCreate_def appendMember_def setSMSWebhookURL_def
        Let_def split: option.splits)

lemma srv_id_applyOp: "srv_id (applyOp env srv x) = srv_id srv"
proof (cases x)
  case (OpAddNumber n)
  then show ?thesis using snd_AddNumber [of env n srv] by auto
next
  case (OpAddMsgService ms)
  then show ?thesis using snd_AddMsgService [of env ms srv] by (auto simp: srv_id_addMembers)
qed

lemma srv_id_run: "srv_id (run env xs srv) = srv_id srv"
  by (induction xs arbitrary: srv) (simp_all add: srv_id_applyOp)

text \<open>
  Claim C6, as amended. As long as the 64-bit counter does not wrap (the counter value at
  the start plus the number of calls stays below \<open>2 ^ 64\<close>, so for the first
  \<open>2 ^ 64 - 1\<close> calls of a new server), the results of successive \<open>nextID\<close> calls
  are, call by call, the given prefix followed by exactly 32 decimal digits, the zero-padded
  rendering of the counter after its increment; the numeric parts increase strictly from
  call to call, and the issued IDs are pairwise distinct, whatever the prefixes.
\<close>

theorem nextID_sequence:
  assumes "unat (srv_id srv) + length ps < 2 ^ 64"
  shows "length (fst (issue ps srv)) = length ps \<and>
         (\<forall>j<length ps.
            fst (issue ps srv) ! j = ps ! j @ zeroPad 32 (decimal (unat (srv_id srv) + Suc j)) \<and>
            length (zeroPad 32 (decimal (unat (srv_id srv) + Suc j))) = 32 \<and>
            numericPart (fst (issue ps srv) ! j) = unat (srv_id srv) + Suc j) \<and>
         (\<forall>i j. i < j \<and> j < length ps \<longrightarrow>
            numericPart (fst (issue ps srv) ! i) < numericPart (fst (issue ps srv) ! j)) \<and>
         distinct (fst (issue ps srv))"
proof (intro conjI allI impI)
  show "length (fst (issue ps srv)) = length ps" by (rule length_issue)
next
  fix j assume j: "j < length ps"
  show "fst (issue ps srv) ! j = ps ! j @ zeroPad 32 (decimal (unat (srv_id srv) + Suc j))"
    using nth_issue_bounded [OF assms j] by (simp add: sprintfID_def)
  have "unat (srv_id srv) + Suc j < 2 ^ 64" using assms j by simp
  also have "(2::nat) ^ 64 \<le> 10 ^ 32" by simp
  finally show "length (zeroPad 32 (decimal (unat (srv_id srv) + Suc j))) = 32"
    by (rule length_pad32)
  show "numericPart (fst (issue ps srv) ! j) = unat (srv_id srv) + Suc j"
    by (rule numericPart_issue [OF assms j])
next
  fix i j assume "i < j \<and> j < length ps"
  then show "numericPart (fst (issue ps srv) ! i) < numericPart (fst (issue ps srv) ! j)"
    by (simp add: numericPart_issue [OF assms])
next
  show "distinct (fst (issue ps srv))"
    unfolding distinct_conv_nth length_issue
  proof (intro allI impI)
    fix i j assume "i < length ps" and "j < length ps" and "i \<noteq> j"
    then have "numericPart (fst (issue ps srv) ! i) \<noteq> numericPart (fst (issue ps srv) ! j)"
      by (simp add: numericPart_issue [OF assms])
    then show "fst (issue ps srv) ! i \<noteq> fst (issue ps srv) ! j" by auto
  qed
qed

theorem nextID_sequence_witness:
  "fst (issue [''SM'', ''CA'', ''SM''] srv0) =
     [''SM00000000000000000000000000000001'', ''CA00000000000000000000000000000002'',
      ''SM00000000000000000000000000000003''] \<and>
   distinct (fst (issue [''SM'', ''CA'', ''SM''] srv0)) \<and>
   numericPart (fst (issue [''SM'', ''CA'', ''SM''] srv0) ! 2) = 3"
proof -
  have b: "unat (srv_id srv0) + length [''SM'', ''CA'', ''SM''] < 2 ^ 64"
    by (simp add: srv0_def)
  have e: "fst (issue [''SM'', ''CA'', ''SM''] srv0) =
     [''SM00000000000000000000000000000001'', ''CA00000000000000000000000000000002'',
      ''SM00000000000000000000000000000003'']"
    by code_simp
  note s = nextID_sequence [OF b]
  from s have d: "distinct (fst (issue [''SM'', ''CA'', ''SM''] srv0))" by (elim conjE)
  from s have "\<forall>j<length [''SM'', ''CA'', ''SM''].
      numericPart (fst (issue [''SM'', ''CA'', ''SM''] srv0) ! j) = unat (srv_id srv0) + Suc j"
    by (elim conjE) blast
  then have "numericPart (fst (issue [''SM'', ''CA'', ''SM''] srv0) ! 2) = unat (srv_id srv0) + Suc 2"
    by simp
  then have n: "numericPart (fst (issue [''SM'', ''CA'', ''SM''] srv0) ! 2) = 3"
    by (simp add: srv0_def)
  from e d n show ?thesis by (intro conjI)
qed

text \<open>
  The claim as stated, for every sequence of calls, fails when the counter wraps: in the
  sequence of \<open>2 ^ 64 + 1\<close> calls on a new server the last ID is the first one again, and
  the numeric part falls from \<open>2 ^ 64 - 1\<close> at call \<open>2 ^ 64 - 1\<close> to \<open>0\<close> at call \<open>2 ^ 64\<close>.
\<close>

theorem nextID_wraps_counterexample:
  "fst (issue (replicate (2 ^ 64 + 1) ''SM'') srv0) ! (2 ^ 64) =
     fst (issue (replicate (2 ^ 64 + 1) ''SM'') srv0) ! 0 \<and>
   \<not> distinct (fst (issue (replicate (2 ^ 64 + 1) ''SM'') srv0)) \<and>
   numericPart (fst (issue (replicate (2 ^ 64 + 1) ''SM'') srv0) ! (2 ^ 64 - 1)) = 0 \<and>
   numericPart (fst (issue (replicate (2 ^ 64 + 1) ''SM'') srv0) ! (2 ^ 64 - 2)) = 2 ^ 64 - 1"
proof -
  let ?ids = "fst (issue (replicate (2 ^ 64 + 1) ''SM'') srv0)"
  have len: "length ?ids = 2 ^ 64 + 1" by (simp add: length_issue)
  have w: "(of_nat (2 ^ 64) :: 64 word) = 0" by simp
  have a: "?ids ! (2 ^ 64) = sprintfID ''SM'' (unat (1 :: 64 word))"
    using nth_issue [of "2 ^ 64" "replicate (2 ^ 64 + 1) ''SM''" srv0] w
    by (simp add: srv0_def)
  have b: "?ids ! 0 = sprintfID ''SM'' (unat (1 :: 64 word))"
    using nth_issue [of 0 "replicate (2 ^ 64 + 1) ''SM''" srv0]
    by (simp add: srv0_def)
  have eq: "?ids ! (2 ^ 64) = ?ids ! 0" using a b by simp
  have nd: "\<not> distinct ?ids"
  proof
    assume "distinct ?ids"
    moreover have "(2 ^ 64 :: nat) < length ?ids" "0 < length ?ids" "(2 ^ 64 :: nat) \<noteq> 0"
      using len by simp_all
    ultimately have "?ids ! (2 ^ 64) \<noteq> ?ids ! 0"
      using nth_eq_iff_index_eq [of ?ids "2 ^ 64" 0] by simp
    with eq show False by simp
  qed
  have c: "?ids ! (2 ^ 64 - 1) = sprintfID ''SM'' (unat (0 :: 64 word))"
    using nth_issue [of "2 ^ 64 - 1" "replicate (2 ^ 64 + 1) ''SM''" srv0] w
    by (simp add: srv0_def)
  have d: "?ids ! (2 ^ 64 - 2) = sprintfID ''SM'' (2 ^ 64 - 1)"
    using nth_issue [of "2 ^ 64 - 2" "replicate (2 ^ 64 + 1) ''SM''" srv0]
    by (simp add: srv0_def)
  have lt: "(2 ^ 64 - 1 :: nat) < 10 ^ 32" by simp
  have "numericPart (?ids ! (2 ^ 64 - 1)) = 0"
    by (simp only: c numericPart_sprintfID [OF unat_lt_10_32]) simp
  moreover have "numericPart (?ids ! (2 ^ 64 - 2)) = 2 ^ 64 - 1"
    by (simp only: d numericPart_sprintfID [OF lt])
  ultimately show ?thesis using eq nd by simp
qed

section \<open>Properties of the coordinator\<close>

text \<open>Both invariants hold initially and every event keeps them.\<close>

lemma closeInv_init: "closeInv coordInit"
  by (simp add: closeInv_def coordInit_def)

lemma drainInv_init: "drainInv coordInit"
  by (simp add: drainInv_def coordInit_def)

lemma drainInv_step:
  assumes "drainInv s" and "coordStep e s = Some s'"
  shows "drainInv s'"
proof -
  note I = assms(1) [unfolded drainInv_def]
  show ?thesis
  proof (cases e)
    case LoopOutboundMsg
    with assms(2) have en: "loopPc s = LSelect"
      and s': "s' = s\<lparr>received := Suc (received s), loopPc := LWgAdd\<rparr>"
      by (simp_all split: if_splits)
    show ?thesis unfolding drainInv_def s' using I en by (intro conjI) (auto intro: le_SucI)
  next
    case LoopSpawn
    with assms(2) have en: "loopPc s = LWgAdd"
      and s': "s' = s\<lparr>spawned := Suc (spawned s), loopPc := LSelect\<rparr>"
      by (simp_all split: if_splits)
    show ?thesis unfolding drainInv_def s' using I en by (intro conjI) (auto intro: le_SucI)
  next
    case (LoopWaitInFlight i)
    with assms(2) have en: "waiter s i = WAtSend" and pc: "loopPc s = LSelect" and
      s': "s' = s\<lparr>waiter := (waiter s)(i := WAtRecv), watcher := (watcher s)(i := XAtWgWait)\<rparr>"
      by (simp_all split: if_splits)
    have x: "watcher s i = XNotStarted" using I en by blast
    have c: "\<not> ch s i" using I x by auto
    have r: "received s = spawned s" using I pc by simp
    have le: "seenAtCall s i \<le> spawned s" using I en r by auto
    show ?thesis unfolding drainInv_def s' using I en x c pc le by (intro conjI) auto
  next
    case (LifecycleDone k)
    with assms(2) have s': "s' = s\<lparr>finished := insert k (finished s)\<rparr>"
      by (simp_all split: if_splits)
    show ?thesis unfolding drainInv_def s' using I by (intro conjI) auto
  next
    case (CallWaitInFlight i)
    with assms(2) have en: "waiter s i = WNotCalled"
      and s': "s' = s\<lparr>waiter := (waiter s)(i := WAtSend),
                   seenAtCall := (seenAtCall s)(i := received s)\<rparr>"
      by (simp_all split: if_splits)
    have x: "watcher s i = XNotStarted" using I en by blast
    show ?thesis unfolding drainInv_def s' using I en x by (intro conjI) auto
  next
    case (WaitCtxDone i)
    with assms(2) have en: "waiter s i = WAtSend \<or> waiter s i = WAtRecv"
      and s': "s' = s\<lparr>waiter := (waiter s)(i := WReturnedCtxErr)\<rparr>"
      by (simp_all split: if_splits)
    show ?thesis unfolding drainInv_def s' using I en by (intro conjI) auto
  next
    case (WaitRecvCh i)
    with assms(2) have en: "waiter s i = WAtRecv" "ch s i"
      and s': "s' = s\<lparr>waiter := (waiter s)(i := WReturnedNil)\<rparr>"
      by (simp_all split: if_splits)
    show ?thesis unfolding drainInv_def s' using I en by (intro conjI) auto
  next
    case (WatcherWgWait i)
    with assms(2) have en: "watcher s i = XAtWgWait" "wgZero s"
      and s': "s' = s\<lparr>watcher := (watcher s)(i := XAtClose),
                   drainedAt := (drainedAt s)(i := spawned s)\<rparr>"
      by (simp_all split: if_splits)
    have le: "seenAtCall s i \<le> spawned s" using I en(1) by auto
    have f: "k < spawned s \<Longrightarrow> k \<in> finished s" for k
      using en(2) by (auto simp: wgZero_def)
    have c: "\<not> ch s i" using I en(1) by auto
    show ?thesis unfolding drainInv_def s' using I en(1) f c le by (intro conjI) auto
  next
    case (WatcherClose i)
    with assms(2) have en: "watcher s i = XAtClose"
      and s': "s' = s\<lparr>ch := (ch s)(i := True), panicked := (panicked s \<or> ch s i),
                   watcher := (watcher s)(i := XFinished)\<rparr>"
      by (simp_all split: if_splits)
    show ?thesis unfolding drainInv_def s' using I en by (intro conjI) auto
  qed (use assms in \<open>auto simp: drainInv_def split: if_splits\<close>)
qed

lemma closeInv_step:
  assumes "closeInv s" and "coordStep e s = Some s'" and "drainInv s"
  shows "closeInv s'"
proof -
  note I = assms(1) [unfolded closeInv_def]
  show ?thesis
  proof (cases e)
    case (CallClose t)
    with assms(2) have en: "closer s t = CNotCalled"
      and s': "s' = s\<lparr>closer := (closer s)(t := CAtDo)\<rparr>"
      by (simp_all split: if_splits)
    show ?thesis unfolding closeInv_def s' using I en by (intro conjI) auto
  next
    case (OnceEnter t)
    with assms(2) have en: "closer s t = CAtDo" "once s = OnceFresh"
      and s': "s' = s\<lparr>once := OnceRunning, closer := (closer s)(t := CInBody)\<rparr>"
      by (simp_all split: if_splits)
    have nb: "closer s u \<noteq> CInBody \<and> closer s u \<noteq> CBodyDone" for u using I en(2) by auto
    have sd: "\<not> shutdown s" using I en(2) by simp
    show ?thesis unfolding closeInv_def s' using I en nb sd by (intro conjI) auto
  next
    case (OnceBody t)
    with assms(2) have en: "closer s t = CInBody"
      and s': "s' = s\<lparr>shutdown := True, panicked := (panicked s \<or> shutdown s),
                   closeCount := Suc (closeCount s),
                   closer := (closer s)(t := CBodyDone)\<rparr>"
      by (simp_all split: if_splits)
    have r: "once s = OnceRunning" using I en by blast
    have sd: "\<not> shutdown s" using I en by blast
    have cc: "closeCount s = 0" using I sd by simp
    have uniq: "closer s u = CInBody \<or> closer s u = CBodyDone \<Longrightarrow> u = t" for u
      using I en by blast
    have ls: "loopPc s = LSelect \<or> loopPc s = LWgAdd" using I sd by blast
    have nr: "closer s u \<noteq> CReturned" for u using I sd ls by auto
    have na: "closer s u \<noteq> CAtRecv" for u using I r by auto
    show ?thesis unfolding closeInv_def s' using I en r sd cc ls uniq nr na
      by (intro conjI) auto
  next
    case (OnceReturn t)
    with assms(2) have en: "closer s t = CBodyDone"
      and s': "s' = s\<lparr>once := OnceDone, closer := (closer s)(t := CAtRecv)\<rparr>"
      by (simp_all split: if_splits)
    have r: "once s = OnceRunning \<and> shutdown s" using I en by blast
    have uniq: "closer s u = CInBody \<or> closer s u = CBodyDone \<Longrightarrow> u = t" for u
      using I en by blast
    show ?thesis unfolding closeInv_def s' using I en r uniq by (intro conjI) auto
  next
    case (OnceSkip t)
    with assms(2) have en: "closer s t = CAtDo" "once s = OnceDone"
      and s': "s' = s\<lparr>closer := (closer s)(t := CAtRecv)\<rparr>"
      by (simp_all split: if_splits)
    show ?thesis unfolding closeInv_def s' using I en by (intro conjI) auto
  next
    case (RecvShutdownDone t)
    with assms(2) have en: "closer s t = CAtRecv" "shutdownDone s"
      and s': "s' = s\<lparr>closer := (closer s)(t := CReturned)\<rparr>"
      by (simp_all split: if_splits)
    show ?thesis unfolding closeInv_def s' using I en by (intro conjI) auto
  next
    case LoopShutdown
    with assms(2) have en: "loopPc s = LSelect" "shutdown s"
      and s': "s' = s\<lparr>loopPc := LCancel\<rparr>"
      by (simp_all split: if_splits)
    show ?thesis unfolding closeInv_def s' using I en by (intro conjI) auto
  next
    case LoopOutboundMsg
    with assms(2) have en: "loopPc s = LSelect"
      and s': "s' = s\<lparr>received := Suc (received s), loopPc := LWgAdd\<rparr>"
      by (simp_all split: if_splits)
    show ?thesis unfolding closeInv_def s' using I en by (intro conjI) auto
  next
    case LoopSpawn
    with assms(2) have en: "loopPc s = LWgAdd"
      and s': "s' = s\<lparr>spawned := Suc (spawned s), loopPc := LSelect\<rparr>"
      by (simp_all split: if_splits)
    show ?thesis unfolding closeInv_def s' using I en by (intro conjI) auto
  next
    case (LoopWaitInFlight i)
    with assms(2) have
      s': "s' = s\<lparr>waiter := (waiter s)(i := WAtRecv), watcher := (watcher s)(i := XAtWgWait)\<rparr>"
      by (simp_all split: if_splits)
    show ?thesis unfolding closeInv_def s' using I by (intro conjI) auto
  next
    case LoopCancel
    with assms(2) have en: "loopPc s = LCancel" and s': "s' = s\<lparr>loopPc := LWgWait\<rparr>"
      by (simp_all split: if_splits)
    show ?thesis unfolding closeInv_def s' using I en by (intro conjI) auto
  next
    case LoopWgWait
    with assms(2) have en: "loopPc s = LWgWait" and s': "s' = s\<lparr>loopPc := LCloseMsgCh\<rparr>"
      by (simp_all split: if_splits)
    show ?thesis unfolding closeInv_def s' using I en by (intro conjI) auto
  next
    case LoopCloseMsgCh
    with assms(2) have en: "loopPc s = LCloseMsgCh"
      and s': "s' = s\<lparr>msgCh := True, panicked := (panicked s \<or> msgCh s), loopPc := LCloseDone\<rparr>"
      by (simp_all split: if_splits)
    show ?thesis unfolding closeInv_def s' using I en by (intro conjI) auto
  next
    case LoopCloseDone
    with assms(2) have en: "loopPc s = LCloseDone"
      and s': "s' = s\<lparr>shutdownDone := True, panicked := (panicked s \<or> shutdownDone s),
                   loopPc := LExited\<rparr>"
      by (simp_all split: if_splits)
    show ?thesis unfolding closeInv_def s' using I en by (intro conjI) auto
  next
    case (LifecycleDone k)
    with assms(2) have s': "s' = s\<lparr>finished := insert k (finished s)\<rparr>"
      by (simp_all split: if_splits)
    show ?thesis unfolding closeInv_def s' using I by (intro conjI) auto
  next
    case (CallWaitInFlight i)
    with assms(2) have s': "s' = s\<lparr>waiter := (waiter s)(i := WAtSend),
                   seenAtCall := (seenAtCall s)(i := received s)\<rparr>"
      by (simp_all split: if_splits)
    show ?thesis unfolding closeInv_def s' using I by (intro conjI) auto
  next
    case (WaitCtxDone i)
    with assms(2) have s': "s' = s\<lparr>waiter := (waiter s)(i := WReturnedCtxErr)\<rparr>"
      by (simp_all split: if_splits)
    show ?thesis unfolding closeInv_def s' using I by (intro conjI) auto
  next
    case (WaitRecvCh i)
    with assms(2) have s': "s' = s\<lparr>waiter := (waiter s)(i := WReturnedNil)\<rparr>"
      by (simp_all split: if_splits)
    show ?thesis unfolding closeInv_def s' using I by (intro conjI) auto
  next
    case (WatcherWgWait i)
    with assms(2) have s': "s' = s\<lparr>watcher := (watcher s)(i := XAtClose),
                   drainedAt := (drainedAt s)(i := spawned s)\<rparr>"
      by (simp_all split: if_splits)
    show ?thesis unfolding closeInv_def s' using I by (intro conjI) auto
  next
    case (WatcherClose i)
    with assms(2) have en: "watcher s i = XAtClose"
      and s': "s' = s\<lparr>ch := (ch s)(i := True), panicked := (panicked s \<or> ch s i),
                   watcher := (watcher s)(i := XFinished)\<rparr>"
      by (simp_all split: if_splits)
    have c: "\<not> ch s i" using assms(3) en by (auto simp: drainInv_def)
    show ?thesis unfolding closeInv_def s' using I c by (intro conjI) auto
  qed
qed

lemma coordInv_run:
  "closeInv s \<Longrightarrow> drainInv s \<Longrightarrow> coordRun es s = Some s' \<Longrightarrow> closeInv s' \<and> drainInv s'"
proof (induction es arbitrary: s)
  case Nil
  then show ?case by simp
next
  case (Cons e es)
  from Cons.prems(3) obtain s1 where s1: "coordStep e s = Some s1" and r: "coordRun es s1 = Some s'"
    by (auto split: option.splits)
  from Cons.IH [OF closeInv_step [OF Cons.prems(1) s1 Cons.prems(2)]
      drainInv_step [OF Cons.prems(2) s1] r]
  show ?case .
qed

lemma coordInv_reachable:
  "coordRun es coordInit = Some s \<Longrightarrow> closeInv s \<and> drainInv s"
  by (rule coordInv_run [OF closeInv_init drainInv_init])

text \<open>
  Claim C7. In every state the server can reach, whatever the number of goroutines calling
  \<^verbatim>\<open>Close\<close> and however they interleave with the loop: no close of a closed channel has
  happened (no panic, no double release); \<^verbatim>\<open>close(srv.shutdown)\<close> has run at most once, and
  exactly once as soon as one caller is past \<^verbatim>\<open>once.Do\<close>; a caller that has returned finds
  the shutdown channel closed, the loop exited and \<^verbatim>\<open>shutdownDone\<close> closed. A further call
  made after one has returned runs to its return without changing anything but its own
  program counter: the shutdown is idempotent.
\<close>

theorem close_one_shot:
  assumes "coordRun es coordInit = Some s"
  shows "\<not> panicked s \<and> closeCount s \<le> 1 \<and>
         (\<forall>t. closer s t = CAtRecv \<or> closer s t = CReturned \<longrightarrow> closeCount s = 1) \<and>
         (\<forall>t. closer s t = CReturned \<longrightarrow> shutdown s \<and> loopPc s = LExited \<and> shutdownDone s) \<and>
         (\<forall>t u. closer s t = CReturned \<and> closer s u = CNotCalled \<longrightarrow>
            coordRun [CallClose u, OnceSkip u, RecvShutdownDone u] s =
              Some (s\<lparr>closer := (closer s)(u := CReturned)\<rparr>))"
proof -
  from coordInv_reachable [OF assms] have "closeInv s" ..
  note I = this [unfolded closeInv_def]
  have ret: "shutdown s \<and> loopPc s = LExited \<and> shutdownDone s \<and> once s = OnceDone"
    if "closer s t = CReturned" for t
  proof -
    from I that have d: "shutdownDone s" by blast
    with I have l: "loopPc s = LExited" by blast
    with I have sd: "shutdown s" by auto
    from I that have "once s = OnceDone" by blast
    with d l sd show ?thesis by simp
  qed
  have p: "\<not> panicked s" using I by simp
  have c: "closeCount s \<le> 1" using I by simp
  have a: "\<forall>t. closer s t = CAtRecv \<or> closer s t = CReturned \<longrightarrow> closeCount s = 1"
  proof (intro allI impI)
    fix t assume "closer s t = CAtRecv \<or> closer s t = CReturned"
    then have "once s = OnceDone" using I by blast
    with I have "shutdown s" by blast
    with I show "closeCount s = 1" by simp
  qed
  have r: "\<forall>t. closer s t = CReturned \<longrightarrow> shutdown s \<and> loopPc s = LExited \<and> shutdownDone s"
    using ret by blast
  have i: "\<forall>t u. closer s t = CReturned \<and> closer s u = CNotCalled \<longrightarrow>
            coordRun [CallClose u, OnceSkip u, RecvShutdownDone u] s =
              Some (s\<lparr>closer := (closer s)(u := CReturned)\<rparr>)"
  proof (intro allI impI)
    fix t u assume h: "closer s t = CReturned \<and> closer s u = CNotCalled"
    with ret [of t] show "coordRun [CallClose u, OnceSkip u, RecvShutdownDone u] s =
              Some (s\<lparr>closer := (closer s)(u := CReturned)\<rparr>)"
      by simp
  qed
  from p c a r i show ?thesis by (intro conjI)
qed

lemma closeSchedule_runs:
  "\<exists>s. coordRun closeSchedule coordInit = Some s \<and> closer s 0 = CReturned \<and>
       closer s 1 = CReturned \<and> closer s 2 = CReturned \<and> closeCount s = 1"
  by (simp add: closeSchedule_def coordInit_def wgZero_def lessThan_Suc)

theorem close_one_shot_witness:
  "closeCount (the (coordRun closeSchedule coordInit)) = 1 \<and>
   \<not> panicked (the (coordRun closeSchedule coordInit)) \<and>
   loopPc (the (coordRun closeSchedule coordInit)) = LExited \<and>
   shutdownDone (the (coordRun closeSchedule coordInit))"
proof -
  from closeSchedule_runs obtain s where r: "coordRun closeSchedule coordInit = Some s"
    and c: "closer s 0 = CReturned" by blast
  note t = close_one_shot [OF r]
  from t have p: "\<not> panicked s" by (elim conjE)
  from t have "\<forall>t. closer s t = CAtRecv \<or> closer s t = CReturned \<longrightarrow> closeCount s = 1"
    by (elim conjE)
  with c have n: "closeCount s = 1" by blast
  from t have "\<forall>t. closer s t = CReturned \<longrightarrow> shutdown s \<and> loopPc s = LExited \<and> shutdownDone s"
    by (elim conjE)
  with c have l: "loopPc s = LExited \<and> shutdownDone s" by blast
  from p n l show ?thesis by (simp add: r)
qed

text \<open>
  Claim C9. When a call of \<^verbatim>\<open>WaitInFlight\<close> has returned \<^verbatim>\<open>nil\<close>, there was a point during the
  call, the return of the watcher's \<^verbatim>\<open>wg.Wait()\<close>, at which every lifecycle goroutine the
  loop had started up to then had finished (\<open>drainedAt\<close> of them, none in flight), and these
  include all those started before the call began (\<open>seenAtCall\<close>); all of them are finished
  in the state reached. Goroutines started during or after the call are not covered: the
  second conjunct gives a run where the call has returned \<^verbatim>\<open>nil\<close> and a lifecycle goroutine
  started during the call has not finished.
\<close>

theorem waitInFlight_success_drained:
  "(coordRun es coordInit = Some s \<and> waiter s i = WReturnedNil \<longrightarrow>
      seenAtCall s i \<le> drainedAt s i \<and> drainedAt s i \<le> spawned s \<and>
      (\<forall>k. k < drainedAt s i \<longrightarrow> k \<in> finished s) \<and>
      (\<forall>k. k < seenAtCall s i \<longrightarrow> k \<in> finished s)) \<and>
   (\<exists>s'. coordRun drainSchedule coordInit = Some s' \<and> waiter s' 0 = WReturnedNil \<and>
         seenAtCall s' 0 = 1 \<and> spawned s' = 2 \<and> 1 \<notin> finished s')"
proof (intro conjI impI)
  assume h: "coordRun es coordInit = Some s \<and> waiter s i = WReturnedNil"
  then have "drainInv s" using coordInv_reachable by blast
  note I = this [unfolded drainInv_def]
  from h I have "ch s i" by blast
  with I have "watcher s i = XFinished" by blast
  with I have d: "seenAtCall s i \<le> drainedAt s i \<and> drainedAt s i \<le> spawned s \<and>
          (\<forall>k. k < drainedAt s i \<longrightarrow> k \<in> finished s)" by blast
  then show "seenAtCall s i \<le> drainedAt s i" and "drainedAt s i \<le> spawned s"
    and "\<forall>k. k < drainedAt s i \<longrightarrow> k \<in> finished s" by simp_all
  from d show "\<forall>k. k < seenAtCall s i \<longrightarrow> k \<in> finished s" by auto
next
  show "\<exists>s'. coordRun drainSchedule coordInit = Some s' \<and> waiter s' 0 = WReturnedNil \<and>
         seenAtCall s' 0 = 1 \<and> spawned s' = 2 \<and> 1 \<notin> finished s'"
    by (simp add: drainSchedule_def coordInit_def wgZero_def lessThan_Suc)
qed

lemma drainSchedule_runs:
  "\<exists>s. coordRun drainSchedule coordInit = Some s \<and> waiter s 0 = WReturnedNil \<and>
       seenAtCall s 0 = 1"
  by (simp add: drainSchedule_def coordInit_def wgZero_def lessThan_Suc)

theorem waitInFlight_success_drained_witness:
  "0 \<in> finished (the (coordRun drainSchedule coordInit)) \<and>
   waiter (the (coordRun drainSchedule coordInit)) 0 = WReturnedNil"
proof -
  from drainSchedule_runs obtain s where r: "coordRun drainSchedule coordInit = Some s"
    and w: "waiter s 0 = WReturnedNil" and n: "seenAtCall s 0 = 1" by blast
  from waitInFlight_success_drained [of drainSchedule s 0] r w
  have "\<forall>k. k < seenAtCall s 0 \<longrightarrow> k \<in> finished s" by blast
  with n have "0 \<in> finished s" by simp
  with w show ?thesis by (simp add: r)
qed

end
